theory Spec2Isabelle
  imports Main "HOL-Library.Word"
begin

unbundle bit_operations_syntax

section \<open>Configuration and data model (scheduler.h)\<close>

text \<open>
  The two compile-time constants of the header. The build with \<^verbatim>\<open>SCHEDULER_DEBUG\<close>
  defined (the header's default) is the one embedded here, so the debug counters are
  part of the data.
\<close>

definition MAX_TASKS :: nat where
  "MAX_TASKS = 8"

definition TASK_STACK_SIZE :: nat where
  "TASK_STACK_SIZE = 128"

datatype task_state_t = TASK_READY | TASK_RUNNING | TASK_BLOCKED | TASK_SUSPENDED

text \<open>
  A task function pointer is a 16-bit code address on the AVR; \<^verbatim>\<open>NULL\<close> is address 0.
\<close>

type_synonym task_func_t = "16 word"

text \<open>
  The task control block. \<open>stack_pointer\<close> points into the task's own \<open>stack\<close>, so it is
  kept as an offset into that array; \<open>None\<close> is the null pointer that \<^verbatim>\<open>memset\<close> leaves.
\<close>

record task_t =
  stack_pointer :: "nat option"
  stack :: "8 word list"
  state :: task_state_t
  task_id :: "8 word"
  delay_ticks :: "16 word"
  runtime_ticks :: "32 word"
  times_scheduled :: "32 word"

record scheduler_debug_t =
  total_ticks :: "32 word"
  context_switches :: "32 word"
  voluntary_yields :: "32 word"

text \<open>
  The file-scope variables of scheduler.c, gathered in one record: the array \<open>tasks\<close>
  (a list that always has \<open>MAX_TASKS\<close> elements), \<open>task_count\<close>, \<open>current_task\<close>,
  \<open>scheduler_running\<close> (all \<^verbatim>\<open>uint8_t\<close>) and \<open>debug_stats\<close>.
\<close>

record scheduler =
  tasks :: "task_t list"
  task_count :: "8 word"
  current_task :: "8 word"
  scheduler_running :: "8 word"
  debug_stats :: scheduler_debug_t

text \<open>
  C leaves two things undefined that the code can run into: the remainder of a division
  by zero, and an access to \<open>tasks\<close> outside its \<open>MAX_TASKS\<close> elements. Both are results
  of the model, so that an operation either returns a state or names the fault.
\<close>

datatype fault = DivisionByZero | OutOfBounds

definition in_array :: "nat \<Rightarrow> bool" where
  "in_array i = (i < MAX_TASKS)"

definition task_at :: "scheduler \<Rightarrow> nat \<Rightarrow> task_t" where
  "task_at s i = tasks s ! i"

definition upd_task :: "nat \<Rightarrow> (task_t \<Rightarrow> task_t) \<Rightarrow> scheduler \<Rightarrow> scheduler" where
  "upd_task i f s = s\<lparr>tasks := (tasks s)[i := f (tasks s ! i)]\<rparr>"

section \<open>Initialisation\<close>

text \<open>One task control block after \<^verbatim>\<open>memset(tasks, 0, sizeof(tasks))\<close>; the enum value 0 is
  \<open>TASK_READY\<close>.\<close>

definition cleared_task :: task_t where
  "cleared_task =
     \<lparr>stack_pointer = None, stack = replicate TASK_STACK_SIZE 0, state = TASK_READY,
      task_id = 0, delay_ticks = 0, runtime_ticks = 0, times_scheduled = 0\<rparr>"

text \<open>
  \<^verbatim>\<open>scheduler_init\<close> overwrites every variable of the scheduler, so its result does not depend
  on the state before. The four timer registers it programs belong to the hardware and
  are not part of the scheduler's data.
\<close>

definition scheduler_init :: scheduler where
  "scheduler_init =
     \<lparr>tasks = replicate MAX_TASKS cleared_task, task_count = 0, current_task = 0,
      scheduler_running = 0,
      debug_stats = \<lparr>total_ticks = 0, context_switches = 0, voluntary_yields = 0\<rparr>\<rparr>"

section \<open>Building the initial stack image\<close>

text \<open>
  Each \<^verbatim>\<open>*stack_top-- = b\<close> stores a byte and moves the pointer down by one. The only caller
  starts at offset \<open>TASK_STACK_SIZE - 1\<close> and 37 bytes are pushed, so the pointer stays
  inside the 128 bytes of the stack.
\<close>

fun push_bytes :: "8 word list \<Rightarrow> 8 word list \<Rightarrow> nat \<Rightarrow> 8 word list \<times> nat" where
  "push_bytes [] stk stack_top = (stk, stack_top)"
| "push_bytes (b # bs) stk stack_top = push_bytes bs (stk[stack_top := b]) (stack_top - 1)"

text \<open>
  The address of \<^verbatim>\<open>task_exit\<close> is fixed by the linker; it is the parameter \<open>exit_addr\<close>.
\<close>

definition init_stack :: "16 word \<Rightarrow> 8 word list \<Rightarrow> nat \<Rightarrow> task_func_t \<Rightarrow> 8 word list \<times> nat" where
  "init_stack exit_addr stk stack_top task_function =
     (let func_addr = task_function
      in push_bytes
           ([ucast (exit_addr AND 0xFF), ucast (drop_bit 8 exit_addr AND 0xFF),
             ucast (func_addr AND 0xFF), ucast (drop_bit 8 func_addr AND 0xFF),
             0x00, 0x80] @ replicate 31 0x00)
           stk stack_top)"

section \<open>Registering a task\<close>

text \<open>
  The result is the \<^verbatim>\<open>int8_t\<close> the function returns, as its 8 bits (\<open>sint\<close> reads it), and
  the state afterwards. The guard keeps the index inside the array.
\<close>

definition scheduler_add_task :: "16 word \<Rightarrow> task_func_t \<Rightarrow> scheduler \<Rightarrow> 8 word \<times> scheduler" where
  "scheduler_add_task exit_addr task_function s =
     (if MAX_TASKS \<le> unat (task_count s) \<or> task_function = 0 then (- 1, s)
      else
        let tid = task_count s;
            t = task_at s (unat tid);
            (stk, sp) = init_stack exit_addr (stack t) (TASK_STACK_SIZE - 1) task_function
        in (tid,
            (upd_task (unat tid)
               (\<lambda>t. t\<lparr>task_id := tid, state := TASK_READY, delay_ticks := 0,
                      stack := stk, stack_pointer := Some sp\<rparr>) s)
            \<lparr>task_count := task_count s + 1\<rparr>))"

section \<open>Starting\<close>

text \<open>
  With no task registered \<^verbatim>\<open>scheduler_start\<close> spins in \<^verbatim>\<open>while(1);\<close> and never comes
  back: that is \<open>None\<close>. Otherwise the result is the state in which control is handed to
  task 0.
\<close>

definition scheduler_start :: "scheduler \<Rightarrow> scheduler option" where
  "scheduler_start s =
     (if task_count s = 0 then None
      else Some ((upd_task 0 (\<lambda>t. t\<lparr>state := TASK_RUNNING\<rparr>) (s\<lparr>current_task := 0\<rparr>))
                 \<lparr>scheduler_running := 1\<rparr>))"

section \<open>The tick handler\<close>

text \<open>The body of the loop over the tasks, for one task control block.\<close>

definition tick_task :: "task_t \<Rightarrow> task_t" where
  "tick_task t =
     (if 0 < delay_ticks t then
        (let t1 = t\<lparr>delay_ticks := delay_ticks t - 1\<rparr>
         in if delay_ticks t1 = 0 \<and> state t1 = TASK_BLOCKED then t1\<lparr>state := TASK_READY\<rparr> else t1)
      else t)"

text \<open>
  \<open>delay_loop n\<close> is the state after the first \<open>n\<close> rounds of
  \<^verbatim>\<open>for (uint8_t i = 0; i < task_count; i++)\<close>, that is after the tasks \<open>0 .. n - 1\<close>.
\<close>

primrec delay_loop :: "nat \<Rightarrow> scheduler \<Rightarrow> scheduler" where
  "delay_loop 0 s = s"
| "delay_loop (Suc i) s = upd_task i tick_task (delay_loop i s)"

text \<open>
  \<^verbatim>\<open>ISR(TIMER0_COMPA_vect)\<close>. The loop reads \<open>tasks[i]\<close> for every \<open>i < task_count\<close>, which
  leaves the array when \<open>task_count\<close> is above \<open>MAX_TASKS\<close>.
\<close>

definition timer0_compa_isr :: "scheduler \<Rightarrow> fault + scheduler" where
  "timer0_compa_isr s =
     (if scheduler_running s = 0 \<or> task_count s = 0 then Inr s
      else if \<not> in_array (unat (current_task s)) then Inl OutOfBounds
      else
        let s1 = s\<lparr>debug_stats := (debug_stats s)\<lparr>total_ticks := total_ticks (debug_stats s) + 1\<rparr>\<rparr>;
            s2 = (if state (task_at s1 (unat (current_task s1))) = TASK_RUNNING
                  then upd_task (unat (current_task s1))
                         (\<lambda>t. t\<lparr>runtime_ticks := runtime_ticks t + 1\<rparr>) s1
                  else s1)
        in if MAX_TASKS < unat (task_count s2) then Inl OutOfBounds
           else Inr (delay_loop (unat (task_count s2)) s2))"

section \<open>Suspend and resume\<close>

definition scheduler_suspend_task :: "8 word \<Rightarrow> scheduler \<Rightarrow> fault + scheduler" where
  "scheduler_suspend_task tid s =
     (if tid < task_count s then
        (if \<not> in_array (unat tid) then Inl OutOfBounds
         else Inr (upd_task (unat tid) (\<lambda>t. t\<lparr>state := TASK_SUSPENDED\<rparr>) s))
      else Inr s)"

definition scheduler_resume_task :: "8 word \<Rightarrow> scheduler \<Rightarrow> fault + scheduler" where
  "scheduler_resume_task tid s =
     (if tid < task_count s then
        (if \<not> in_array (unat tid) then Inl OutOfBounds
         else if state (task_at s (unat tid)) = TASK_SUSPENDED
              then Inr (upd_task (unat tid) (\<lambda>t. t\<lparr>state := TASK_READY\<rparr>) s)
              else Inr s)
      else Inr s)"

section \<open>Voluntary yield\<close>

text \<open>
  The \<^verbatim>\<open>do ... while\<close> loop of \<^verbatim>\<open>scheduler_yield\<close>, entered with the values of \<open>next_task\<close>
  and \<open>tasks_checked\<close>; it returns both as they are when the loop is left.
  \<open>next_task + 1\<close> is computed in \<^verbatim>\<open>int\<close>, so it does not wrap before the remainder is taken;
  \<open>tasks_checked++\<close> is an 8-bit increment.
\<close>

function scan :: "scheduler \<Rightarrow> 8 word \<Rightarrow> 8 word \<Rightarrow> fault + 8 word \<times> 8 word" where
  "scan s next_task tasks_checked =
     (if task_count s = 0 then Inl DivisionByZero
      else
        let next_task' = (of_nat ((unat next_task + 1) mod unat (task_count s)) :: 8 word);
            tasks_checked' = tasks_checked + 1
        in if \<not> in_array (unat next_task') then Inl OutOfBounds
           else if state (task_at s (unat next_task')) = TASK_READY \<or>
                   state (task_at s (unat next_task')) = TASK_RUNNING
                then Inr (next_task', tasks_checked')
           else if tasks_checked' < task_count s then scan s next_task' tasks_checked'
           else Inr (next_task', tasks_checked'))"
  by pat_completeness auto
termination
proof (relation "measure (\<lambda>(s, next_task, tasks_checked). unat (task_count s - (tasks_checked + 1)))")
  show "wf (measure (\<lambda>(s, next_task, tasks_checked). unat (task_count s - (tasks_checked + 1))))"
    by simp
next
  fix s :: scheduler and next_task tasks_checked x xa :: "8 word"
  assume xa: "xa = tasks_checked + 1" and lt: "xa < task_count s"
  have nz: "task_count s - xa \<noteq> 0"
    using lt by auto
  have eq: "task_count s - (xa + 1) = task_count s - xa - 1"
    by simp
  have "unat (task_count s - xa - 1) < unat (task_count s - xa)"
    using nz by (simp add: unat_minus_one unat_gt_0)
  then have "unat (task_count s - (xa + 1)) < unat (task_count s - xa)"
    by (simp only: eq)
  then show "((s, x, xa), (s, next_task, tasks_checked))
      \<in> measure (\<lambda>(s, next_task, tasks_checked). unat (task_count s - (tasks_checked + 1)))"
    unfolding xa by simp
qed

definition scheduler_yield :: "scheduler \<Rightarrow> fault + scheduler" where
  "scheduler_yield s0 =
     (let s = s0\<lparr>debug_stats := (debug_stats s0)
                  \<lparr>voluntary_yields := voluntary_yields (debug_stats s0) + 1\<rparr>\<rparr>
      in case scan s (current_task s) 0 of
           Inl e \<Rightarrow> Inl e
         | Inr (next_task, tasks_checked) \<Rightarrow>
             if next_task \<noteq> current_task s \<and>
                state (task_at s (unat next_task)) \<noteq> TASK_BLOCKED then
               (let s1 = s\<lparr>debug_stats := (debug_stats s)
                            \<lparr>context_switches := context_switches (debug_stats s) + 1\<rparr>\<rparr>;
                    s2 = upd_task (unat next_task)
                           (\<lambda>t. t\<lparr>times_scheduled := times_scheduled t + 1\<rparr>) s1
                in if \<not> in_array (unat (current_task s2)) then Inl OutOfBounds
                   else
                     let s3 = (if state (task_at s2 (unat (current_task s2))) = TASK_RUNNING
                               then upd_task (unat (current_task s2))
                                      (\<lambda>t. t\<lparr>state := TASK_READY\<rparr>) s2
                               else s2);
                         s4 = s3\<lparr>current_task := next_task\<rparr>
                     in Inr (upd_task (unat (current_task s4))
                               (\<lambda>t. t\<lparr>state := TASK_RUNNING\<rparr>) s4))
             else Inr s)"

section \<open>Delay and task exit\<close>

text \<open>
  \<^verbatim>\<open>task_delay\<close>. Saving \<^verbatim>\<open>SREG\<close>, \<^verbatim>\<open>cli()\<close> and restoring it only keep the tick handler out
  of the two stores; every operation of this model runs without interruption.
\<close>

definition task_delay :: "16 word \<Rightarrow> scheduler \<Rightarrow> fault + scheduler" where
  "task_delay ticks s =
     (if ticks = 0 then Inr s
      else if \<not> in_array (unat (current_task s)) then Inl OutOfBounds
      else scheduler_yield
             (upd_task (unat (current_task s))
                (\<lambda>t. t\<lparr>delay_ticks := ticks, state := TASK_BLOCKED\<rparr>) s))"

text \<open>
  \<^verbatim>\<open>task_exit\<close> stores \<open>TASK_BLOCKED\<close> and then calls \<^verbatim>\<open>scheduler_yield\<close> in \<^verbatim>\<open>while(1)\<close>
  without end. \<open>task_exit_enter\<close> is the store; the calls of the loop are the \<open>Yield\<close>
  events of a trace (below), where the tick handler can run between them.
\<close>

definition task_exit_enter :: "scheduler \<Rightarrow> fault + scheduler" where
  "task_exit_enter s =
     (if \<not> in_array (unat (current_task s)) then Inl OutOfBounds
      else Inr (upd_task (unat (current_task s)) (\<lambda>t. t\<lparr>state := TASK_BLOCKED\<rparr>) s))"

section \<open>Queries\<close>

definition scheduler_get_current_task :: "scheduler \<Rightarrow> 8 word" where
  "scheduler_get_current_task s = current_task s"

definition scheduler_get_task_count :: "scheduler \<Rightarrow> 8 word" where
  "scheduler_get_task_count s = task_count s"

text \<open>
  An output pointer is \<open>None\<close> when it is \<^verbatim>\<open>NULL\<close> and \<open>Some v\<close> when it points to a cell
  that holds \<open>v\<close>. The result is the returned \<^verbatim>\<open>int8_t\<close> and the two cells afterwards.
\<close>

definition scheduler_get_task_stats ::
  "scheduler \<Rightarrow> 8 word \<Rightarrow> 32 word option \<Rightarrow> 32 word option
     \<Rightarrow> fault + 8 word \<times> 32 word option \<times> 32 word option" where
  "scheduler_get_task_stats s tid runtime_out scheduled_out =
     (if task_count s \<le> tid then Inr (- 1, runtime_out, scheduled_out)
      else if \<not> in_array (unat tid) then Inl OutOfBounds
      else Inr (0,
                (case runtime_out of None \<Rightarrow> None
                 | Some _ \<Rightarrow> Some (runtime_ticks (task_at s (unat tid)))),
                (case scheduled_out of None \<Rightarrow> None
                 | Some _ \<Rightarrow> Some (times_scheduled (task_at s (unat tid))))))"

section \<open>Traces of operations\<close>

text \<open>
  The operations that task code and the timer perform on a scheduler, as events. \<open>Yield\<close> is
  a call of \<^verbatim>\<open>scheduler_yield\<close> (also each call made by the loop of \<^verbatim>\<open>task_exit\<close>), \<open>Tick\<close>
  one run of the interrupt handler, \<open>Exit\<close> the store at the head of \<^verbatim>\<open>task_exit\<close>.
\<close>

datatype event =
    Add task_func_t
  | Suspend "8 word"
  | Resume "8 word"
  | Yield
  | Delay "16 word"
  | Tick
  | Exit

fun step :: "16 word \<Rightarrow> event \<Rightarrow> scheduler \<Rightarrow> fault + scheduler" where
  "step exit_addr (Add f) s = Inr (snd (scheduler_add_task exit_addr f s))"
| "step exit_addr (Suspend tid) s = scheduler_suspend_task tid s"
| "step exit_addr (Resume tid) s = scheduler_resume_task tid s"
| "step exit_addr Yield s = scheduler_yield s"
| "step exit_addr (Delay ticks) s = task_delay ticks s"
| "step exit_addr Tick s = timer0_compa_isr s"
| "step exit_addr Exit s = task_exit_enter s"

fun exec :: "16 word \<Rightarrow> event list \<Rightarrow> scheduler \<Rightarrow> fault + scheduler" where
  "exec exit_addr [] s = Inr s"
| "exec exit_addr (ev # evs) s =
     (case step exit_addr ev s of Inl e \<Rightarrow> Inl e | Inr s' \<Rightarrow> exec exit_addr evs s')"

text \<open>The events that only register and configure tasks, as a program does before it
  starts the scheduler.\<close>

fun is_setup :: "event \<Rightarrow> bool" where
  "is_setup (Add f) = True"
| "is_setup (Suspend tid) = True"
| "is_setup (Resume tid) = True"
| "is_setup Tick = True"
| "is_setup ev = False"

text \<open>The events of the dispatcher and of the timer.\<close>

fun is_tick_or_yield :: "event \<Rightarrow> bool" where
  "is_tick_or_yield Tick = True"
| "is_tick_or_yield Yield = True"
| "is_tick_or_yield ev = False"

text \<open>
  \<open>acts_on i s ev\<close>: in state \<open>s\<close> the event is a resume of task \<open>i\<close>, or a delay (of more than
  zero ticks) or an exit performed by task \<open>i\<close> itself, that is while it is the current
  task. \<open>left_alone i evs s\<close>: no event of the trace \<open>evs\<close>, run from \<open>s\<close>, acts on task \<open>i\<close>.
\<close>

fun acts_on :: "nat \<Rightarrow> scheduler \<Rightarrow> event \<Rightarrow> bool" where
  "acts_on i s (Resume tid) = (unat tid = i)"
| "acts_on i s (Delay ticks) = (ticks \<noteq> 0 \<and> unat (current_task s) = i)"
| "acts_on i s Exit = (unat (current_task s) = i)"
| "acts_on i s ev = False"

fun left_alone :: "16 word \<Rightarrow> nat \<Rightarrow> event list \<Rightarrow> scheduler \<Rightarrow> bool" where
  "left_alone exit_addr i [] s = True"
| "left_alone exit_addr i (ev # evs) s =
     (\<not> acts_on i s ev \<and>
      (case step exit_addr ev s of Inl e \<Rightarrow> True | Inr s' \<Rightarrow> left_alone exit_addr i evs s'))"

section \<open>Notions used to state the properties\<close>

text \<open>
  The states the C program can be in as far as the types do not already say it: the array
  has its \<open>MAX_TASKS\<close> elements, no more tasks are registered than it holds, and
  \<open>current_task\<close> is a registered task (or 0 while there is none).
\<close>

definition valid :: "scheduler \<Rightarrow> bool" where
  "valid s \<longleftrightarrow>
     length (tasks s) = MAX_TASKS \<and> unat (task_count s) \<le> MAX_TASKS \<and>
     unat (current_task s) < max 1 (unat (task_count s))"

text \<open>The ids of the registered tasks whose state is \<open>TASK_RUNNING\<close>.\<close>

definition running_tasks :: "scheduler \<Rightarrow> nat list" where
  "running_tasks s =
     filter (\<lambda>i. state (task_at s i) = TASK_RUNNING) [0..<unat (task_count s)]"

text \<open>No slot of the array other than \<open>current_task\<close> holds a task in state \<open>TASK_RUNNING\<close>.\<close>

definition only_current_running :: "scheduler \<Rightarrow> bool" where
  "only_current_running s \<longleftrightarrow>
     (\<forall>i\<in>set [0..<MAX_TASKS]. state (task_at s i) = TASK_RUNNING \<longrightarrow> i = unat (current_task s))"

text \<open>A task the dispatcher may select: its state is Ready or Running.\<close>

definition eligible :: "scheduler \<Rightarrow> nat \<Rightarrow> bool" where
  "eligible s i \<longleftrightarrow> state (task_at s i) = TASK_READY \<or> state (task_at s i) = TASK_RUNNING"

text \<open>
  The order of round robin as the specification words it: the eligible tasks in ascending
  id order starting after the current task, that is the ids above \<open>current_task\<close> first
  and then those from 0 up to \<open>current_task\<close> itself.
\<close>

definition round_robin_order :: "scheduler \<Rightarrow> nat list" where
  "round_robin_order s =
     (let c = unat (current_task s); n = unat (task_count s)
      in filter (eligible s) ([c + 1..<n] @ [0..<c + 1]))"

text \<open>\<open>yield_trace n s\<close> lists \<open>current_task\<close> after each of \<open>n\<close> consecutive calls of
  \<^verbatim>\<open>scheduler_yield\<close>.\<close>

fun yield_trace :: "nat \<Rightarrow> scheduler \<Rightarrow> fault + 8 word list" where
  "yield_trace 0 s = Inr []"
| "yield_trace (Suc n) s =
     (case scheduler_yield s of
        Inl e \<Rightarrow> Inl e
      | Inr s' \<Rightarrow>
          (case yield_trace n s' of Inl e \<Rightarrow> Inl e | Inr cs \<Rightarrow> Inr (current_task s' # cs)))"

text \<open>Consecutive calls of \<^verbatim>\<open>scheduler_add_task\<close>, with the value each call returns.\<close>

fun add_all :: "16 word \<Rightarrow> task_func_t list \<Rightarrow> scheduler \<Rightarrow> 8 word list \<times> scheduler" where
  "add_all exit_addr [] s = ([], s)"
| "add_all exit_addr (f # fs) s =
     (let (r, s') = scheduler_add_task exit_addr f s;
          (rs, s'') = add_all exit_addr fs s'
      in (r # rs, s''))"

text \<open>
  States to try the properties on: one, two and three tasks registered on a fresh
  scheduler, which is then started.
\<close>

definition one_started :: scheduler where
  "one_started =
     (case scheduler_start (snd (add_all 0x0100 [0x0200] scheduler_init)) of
        Some s \<Rightarrow> s | None \<Rightarrow> scheduler_init)"

definition two_started :: scheduler where
  "two_started =
     (case scheduler_start (snd (add_all 0x0100 [0x0200, 0x0300] scheduler_init)) of
        Some s \<Rightarrow> s | None \<Rightarrow> scheduler_init)"

definition three_started :: scheduler where
  "three_started =
     (case scheduler_start (snd (add_all 0x0100 [0x0200, 0x0300, 0x0400] scheduler_init)) of
        Some s \<Rightarrow> s | None \<Rightarrow> scheduler_init)"

text \<open>Task 0 delays for three ticks and is then suspended by task 1.\<close>

definition suspended_demo :: scheduler where
  "suspended_demo =
     (case exec 0x0100 [Delay 3, Suspend 0] two_started of Inr s \<Rightarrow> s | Inl _ \<Rightarrow> two_started)"

text \<open>Three tasks, started, with task 1 suspended.\<close>

definition three_one_suspended :: scheduler where
  "three_one_suspended =
     (case scheduler_suspend_task 1 three_started of Inr s \<Rightarrow> s | Inl _ \<Rightarrow> three_started)"

text \<open>Two tasks, started, after the store of \<^verbatim>\<open>task_exit\<close> for task 0.\<close>

definition two_exited :: scheduler where
  "two_exited =
     (case task_exit_enter two_started of Inr s \<Rightarrow> s | Inl _ \<Rightarrow> two_started)"

section \<open>Basic facts\<close>

declare scan.simps [simp del]

lemma unat_of_nat_small: "k \<le> MAX_TASKS \<Longrightarrow> unat (of_nat k :: 8 word) = k"
  by (simp add: MAX_TASKS_def unat_of_nat)

lemma unat_inc_small: "unat (w :: 8 word) < MAX_TASKS \<Longrightarrow> unat (w + 1) = Suc (unat w)"
  by (simp add: MAX_TASKS_def unat_word_ariths)

lemma scan_char:
  assumes n0: "task_count s \<noteq> 0" and nmax: "unat (task_count s) \<le> MAX_TASKS"
    and ch: "unat ch < unat (task_count s)"
  shows "\<exists>d. 1 \<le> d \<and> d \<le> unat (task_count s) - unat ch \<and>
           scan s nx ch = Inr (of_nat ((unat nx + d) mod unat (task_count s)), ch + of_nat d) \<and>
           (\<forall>d'. 1 \<le> d' \<and> d' < d \<longrightarrow> \<not> eligible s ((unat nx + d') mod unat (task_count s))) \<and>
           (eligible s ((unat nx + d) mod unat (task_count s)) \<or> d = unat (task_count s) - unat ch)"
  using ch
proof (induction "unat (task_count s) - unat ch" arbitrary: nx ch)
  case 0
  then show ?case by simp
next
  case (Suc k)
  let ?n = "unat (task_count s)"
  let ?p = "(unat nx + 1) mod ?n"
  have npos: "0 < ?n" using n0 by (simp add: unat_gt_0)
  have p_lt: "?p < ?n" using npos by simp
  then have p_small: "?p < MAX_TASKS" using nmax by simp
  have up: "unat (of_nat ?p :: 8 word) = ?p" using p_small by (simp add: unat_of_nat_small)
  have ch_small: "unat ch < MAX_TASKS" using Suc.prems nmax by simp
  have uch: "unat (ch + 1) = Suc (unat ch)" using ch_small by (rule unat_inc_small)
  show ?case
  proof (cases "eligible s ?p")
    case True
    then have "scan s nx ch = Inr (of_nat ?p, ch + 1)"
      using n0 p_small up by (subst scan.simps) (simp add: Let_def in_array_def eligible_def)
    then show ?thesis
      using True Suc.prems by (intro exI[of _ 1]) simp
  next
    case False
    show ?thesis
    proof (cases "ch + 1 < task_count s")
      case lt: True
      then have lt': "unat (ch + 1) < ?n" by (simp add: word_less_nat_alt)
      have unf: "scan s nx ch = scan s (of_nat ?p) (ch + 1)"
        using n0 p_small up False lt
        by (subst scan.simps) (simp add: Let_def in_array_def eligible_def)
      have k: "k = ?n - unat (ch + 1)" using Suc.hyps(2) uch by simp
      from Suc.hyps(1)[OF k lt', of "of_nat ?p"] obtain d where d:
        "1 \<le> d" "d \<le> ?n - unat (ch + 1)"
        "scan s (of_nat ?p) (ch + 1) = Inr (of_nat ((?p + d) mod ?n), ch + 1 + of_nat d)"
        "\<forall>d'. 1 \<le> d' \<and> d' < d \<longrightarrow> \<not> eligible s ((?p + d') mod ?n)"
        "eligible s ((?p + d) mod ?n) \<or> d = ?n - unat (ch + 1)"
        unfolding up by blast
      have shift: "\<And>j. (?p + j) mod ?n = (unat nx + Suc j) mod ?n"
        by (simp add: mod_add_left_eq)
      have not_before: "\<forall>d'. 1 \<le> d' \<and> d' < Suc d \<longrightarrow> \<not> eligible s ((unat nx + d') mod ?n)"
      proof (intro allI impI)
        fix d' assume a: "1 \<le> d' \<and> d' < Suc d"
        show "\<not> eligible s ((unat nx + d') mod ?n)"
        proof (cases "d' = 1")
          case True
          then show ?thesis using False by simp
        next
          case False
          then obtain j where j: "d' = Suc j" "1 \<le> j" "j < d" using a by (cases d') auto
          then show ?thesis using d(4) shift by metis
        qed
      qed
      show ?thesis
        using d(1,2,3,5) not_before unf uch shift
        by (intro exI[of _ "Suc d"]) (auto simp: add.assoc)
    next
      case ge: False
      then have "?n \<le> unat (ch + 1)" by (simp add: word_less_nat_alt)
      then have last: "?n - unat ch = 1" using uch Suc.prems by simp
      have "scan s nx ch = Inr (of_nat ?p, ch + 1)"
        using n0 p_small up False ge
        by (subst scan.simps) (simp add: Let_def in_array_def eligible_def)
      then show ?thesis
        using last by (intro exI[of _ 1]) simp
    qed
  qed
qed

lemma eligible_debug [simp]: "eligible (s\<lparr>debug_stats := d\<rparr>) = eligible s"
  by (simp add: eligible_def task_at_def fun_eq_iff)

lemma valid_current_small: "valid s \<Longrightarrow> unat (current_task s) < MAX_TASKS"
  by (auto simp: valid_def MAX_TASKS_def max_def split: if_splits)

lemma valid_current_lt: "valid s \<Longrightarrow> task_count s \<noteq> 0 \<Longrightarrow> unat (current_task s) < unat (task_count s)"
  by (auto simp: valid_def unat_gt_0 max_def split: if_splits)

text \<open>The two ways a yield ends.\<close>

lemma yield_cases:
  assumes v: "valid s" and n0: "task_count s \<noteq> 0"
  obtains
    (stay) "scheduler_yield s = Inr (s\<lparr>debug_stats := (debug_stats s)
                  \<lparr>voluntary_yields := voluntary_yields (debug_stats s) + 1\<rparr>\<rparr>)"
      "\<forall>d'. 1 \<le> d' \<and> d' < unat (task_count s) \<longrightarrow>
          \<not> eligible s ((unat (current_task s) + d') mod unat (task_count s))"
  | (switch) d s' where
      "1 \<le> d" "d < unat (task_count s)"
      "\<forall>d'. 1 \<le> d' \<and> d' < d \<longrightarrow>
          \<not> eligible s ((unat (current_task s) + d') mod unat (task_count s))"
      "eligible s ((unat (current_task s) + d) mod unat (task_count s))"
      "scheduler_yield s = Inr s'"
      "current_task s' = of_nat ((unat (current_task s) + d) mod unat (task_count s))"
      "task_count s' = task_count s" "scheduler_running s' = scheduler_running s"
      "length (tasks s') = length (tasks s)"
      "debug_stats s' = (debug_stats s)
          \<lparr>voluntary_yields := voluntary_yields (debug_stats s) + 1,
           context_switches := context_switches (debug_stats s) + 1\<rparr>"
      "\<forall>i. i \<noteq> unat (current_task s) \<and> i \<noteq> unat (current_task s') \<longrightarrow> task_at s' i = task_at s i"
      "task_at s' (unat (current_task s')) =
         (task_at s (unat (current_task s')))
           \<lparr>state := TASK_RUNNING,
            times_scheduled := times_scheduled (task_at s (unat (current_task s'))) + 1\<rparr>"
      "task_at s' (unat (current_task s)) =
         (if state (task_at s (unat (current_task s))) = TASK_RUNNING
          then (task_at s (unat (current_task s)))\<lparr>state := TASK_READY\<rparr>
          else task_at s (unat (current_task s)))"
      "unat (current_task s') \<noteq> unat (current_task s)"
      "unat (current_task s') < unat (task_count s)"
      "unat (current_task s') = (unat (current_task s) + d) mod unat (task_count s)"
proof -
  let ?sv = "s\<lparr>debug_stats := (debug_stats s)
                  \<lparr>voluntary_yields := voluntary_yields (debug_stats s) + 1\<rparr>\<rparr>"
  let ?n = "unat (task_count s)"
  let ?c = "unat (current_task s)"
  have npos: "0 < ?n" using n0 by (simp add: unat_gt_0)
  have nmax: "?n \<le> MAX_TASKS" and len: "length (tasks s) = MAX_TASKS" using v by (auto simp: valid_def)
  have c_lt: "?c < ?n" using v n0 by (rule valid_current_lt)
  have c_small: "?c < MAX_TASKS" using v by (rule valid_current_small)
  from scan_char[of ?sv 0 "current_task s"] n0 nmax npos
  obtain d where d: "1 \<le> d" "d \<le> ?n"
    "scan ?sv (current_task s) 0 = Inr (of_nat ((?c + d) mod ?n), of_nat d)"
    "\<forall>d'. 1 \<le> d' \<and> d' < d \<longrightarrow> \<not> eligible s ((?c + d') mod ?n)"
    "eligible s ((?c + d) mod ?n) \<or> d = ?n"
    by auto
  let ?t = "(?c + d) mod ?n"
  have t_lt: "?t < ?n" using npos by simp
  then have t_small: "?t < MAX_TASKS" using nmax by simp
  have ut: "unat (of_nat ?t :: 8 word) = ?t" using t_small by (simp add: unat_of_nat_small)
  show thesis
  proof (cases "d = ?n")
    case True
    then have "?t = ?c" using c_lt by simp
    then have "(of_nat ?t :: 8 word) = current_task s" by simp
    then have "scheduler_yield s = Inr ?sv"
      using d(3) by (simp add: scheduler_yield_def Let_def)
    then show ?thesis using d(4) True by (intro stay) auto
  next
    case False
    then have dlt: "d < ?n" using d(2) by simp
    have el: "eligible s ?t" using d(5) False by simp
    have ne: "?t \<noteq> ?c"
    proof
      assume e: "?t = ?c"
      have "(?c + d) mod ?n = (if ?c + d < ?n then ?c + d else ?c + d - ?n)"
        using c_lt dlt by (simp add: mod_if)
      then show False using e d(1) dlt c_lt by (auto split: if_splits)
    qed
    then have new: "(of_nat ?t :: 8 word) \<noteq> current_task s" using ut by auto
    have nb: "state (task_at s ?t) \<noteq> TASK_BLOCKED" using el by (auto simp: eligible_def)
    let ?s' = "(if state (task_at s ?c) = TASK_RUNNING
              then upd_task ?c (\<lambda>t. t\<lparr>state := TASK_READY\<rparr>)
                 (upd_task ?t (\<lambda>t. t\<lparr>times_scheduled := times_scheduled t + 1\<rparr>)
                   (?sv\<lparr>debug_stats := (debug_stats ?sv)\<lparr>context_switches := context_switches (debug_stats ?sv) + 1\<rparr>\<rparr>))
              else (upd_task ?t (\<lambda>t. t\<lparr>times_scheduled := times_scheduled t + 1\<rparr>)
                   (?sv\<lparr>debug_stats := (debug_stats ?sv)\<lparr>context_switches := context_switches (debug_stats ?sv) + 1\<rparr>\<rparr>)))"
    have y: "scheduler_yield s = Inr (upd_task ?t (\<lambda>t. t\<lparr>state := TASK_RUNNING\<rparr>) (?s'\<lparr>current_task := of_nat ?t\<rparr>))"
      using d(3) new nb c_small ne len t_small
      by (simp add: scheduler_yield_def Let_def in_array_def ut task_at_def upd_task_def)
    show ?thesis
    proof (rule switch[OF d(1) dlt d(4) el y])
      show "current_task (upd_task ?t (\<lambda>t. t\<lparr>state := TASK_RUNNING\<rparr>) (?s'\<lparr>current_task := of_nat ?t\<rparr>)) = of_nat ?t"
        by (simp add: upd_task_def)
    qed (use ne len t_small c_small t_lt in \<open>auto simp: upd_task_def task_at_def ut\<close>)
  qed
qed

lemma add_fail: "MAX_TASKS \<le> unat (task_count s) \<or> f = 0 \<Longrightarrow> scheduler_add_task e f s = (- 1, s)"
  by (simp add: scheduler_add_task_def)

lemma add_ok:
  assumes "unat (task_count s) < MAX_TASKS" "f \<noteq> 0" "length (tasks s) = MAX_TASKS"
  shows "fst (scheduler_add_task e f s) = task_count s"
    and "task_count (snd (scheduler_add_task e f s)) = task_count s + 1"
    and "unat (task_count (snd (scheduler_add_task e f s))) = Suc (unat (task_count s))"
    and "length (tasks (snd (scheduler_add_task e f s))) = MAX_TASKS"
    and "state (task_at (snd (scheduler_add_task e f s)) (unat (task_count s))) = TASK_READY"
    and "delay_ticks (task_at (snd (scheduler_add_task e f s)) (unat (task_count s))) = 0"
    and "task_id (task_at (snd (scheduler_add_task e f s)) (unat (task_count s))) = task_count s"
    and "i \<noteq> unat (task_count s) \<Longrightarrow> task_at (snd (scheduler_add_task e f s)) i = task_at s i"
    and "current_task (snd (scheduler_add_task e f s)) = current_task s"
    and "scheduler_running (snd (scheduler_add_task e f s)) = scheduler_running s"
    and "debug_stats (snd (scheduler_add_task e f s)) = debug_stats s"
proof -
  have u: "unat (task_count s + 1) = Suc (unat (task_count s))"
    using assms(1) by (simp add: MAX_TASKS_def unat_word_ariths)
  show "fst (scheduler_add_task e f s) = task_count s"
    and "task_count (snd (scheduler_add_task e f s)) = task_count s + 1"
    and "unat (task_count (snd (scheduler_add_task e f s))) = Suc (unat (task_count s))"
    and "length (tasks (snd (scheduler_add_task e f s))) = MAX_TASKS"
    and "state (task_at (snd (scheduler_add_task e f s)) (unat (task_count s))) = TASK_READY"
    and "delay_ticks (task_at (snd (scheduler_add_task e f s)) (unat (task_count s))) = 0"
    and "task_id (task_at (snd (scheduler_add_task e f s)) (unat (task_count s))) = task_count s"
    and "i \<noteq> unat (task_count s) \<Longrightarrow> task_at (snd (scheduler_add_task e f s)) i = task_at s i"
    and "current_task (snd (scheduler_add_task e f s)) = current_task s"
    and "scheduler_running (snd (scheduler_add_task e f s)) = scheduler_running s"
    and "debug_stats (snd (scheduler_add_task e f s)) = debug_stats s"
    using assms u
    by (simp_all add: scheduler_add_task_def upd_task_def task_at_def Let_def split: prod.splits)
qed

lemma add_all_ids:
  assumes "length (tasks s) = MAX_TASKS" "unat (task_count s) \<le> MAX_TASKS" "\<forall>f\<in>set fs. f \<noteq> 0"
  shows "fst (add_all e fs s) =
           map of_nat [unat (task_count s)..<min (unat (task_count s) + length fs) MAX_TASKS] @
           replicate (unat (task_count s) + length fs - MAX_TASKS) (- 1) \<and>
         unat (task_count (snd (add_all e fs s))) = min (unat (task_count s) + length fs) MAX_TASKS"
  using assms
proof (induction fs arbitrary: s)
  case Nil
  then show ?case by simp
next
  case (Cons f fs)
  have f: "f \<noteq> 0" and fs: "\<forall>f\<in>set fs. f \<noteq> 0" using Cons.prems(3) by auto
  show ?case
  proof (cases "unat (task_count s) < MAX_TASKS")
    case True
    let ?s' = "snd (scheduler_add_task e f s)"
    note ok = add_ok[OF True f Cons.prems(1), where e = e]
    have ih: "fst (add_all e fs ?s') =
           map of_nat [unat (task_count ?s')..<min (unat (task_count ?s') + length fs) MAX_TASKS] @
           replicate (unat (task_count ?s') + length fs - MAX_TASKS) (- 1) \<and>
         unat (task_count (snd (add_all e fs ?s'))) = min (unat (task_count ?s') + length fs) MAX_TASKS"
      using Cons.IH[of ?s'] ok(3,4) True fs by simp
    have up: "[unat (task_count s)..<min (Suc (unat (task_count s) + length fs)) MAX_TASKS]
       = unat (task_count s) # [Suc (unat (task_count s))..<min (Suc (unat (task_count s) + length fs)) MAX_TASKS]"
      using True by (simp add: upt_conv_Cons)
    show ?thesis
      using ih ok(1,3) up
      by (simp add: split_beta Let_def)
  next
    case False
    then have eq: "unat (task_count s) = MAX_TASKS" using Cons.prems(2) by simp
    have fl: "scheduler_add_task e f s = (- 1, s)"
      using False by (simp add: add_fail)
    have ih: "fst (add_all e fs s) =
           map of_nat [unat (task_count s)..<min (unat (task_count s) + length fs) MAX_TASKS] @
           replicate (unat (task_count s) + length fs - MAX_TASKS) (- 1) \<and>
         unat (task_count (snd (add_all e fs s))) = min (unat (task_count s) + length fs) MAX_TASKS"
      using Cons.IH[of s] Cons.prems fs by simp
    show ?thesis
      using ih fl eq by (simp add: split_beta Let_def)
  qed
qed

lemma yield_returns:
  assumes "valid s" "task_count s \<noteq> 0"
  shows "\<exists>s'. scheduler_yield s = Inr s'"
  using assms by (cases rule: yield_cases) auto

section \<open>Registration (C3)\<close>

text \<open>
  C3. Starting from the state \<^verbatim>\<open>scheduler_init\<close> leaves, consecutive calls of
  \<^verbatim>\<open>scheduler_add_task\<close> with non-null entries return the ids 0, 1, 2, ... until
  \<open>MAX_TASKS\<close> tasks are registered, and \<open>-1\<close> from then on, where the count stays at
  \<open>MAX_TASKS\<close>. A call made when the count equals the capacity returns the error value \<open>-1\<close>
  and leaves the whole state, so also the count, as it was; so does a call with a null
  entry. The code has this one error value for both failures. A successful call returns
  the old count as the id, sets that task's state to \<open>TASK_READY\<close> and its \<open>delay_ticks\<close> to
  0, and increments the count.
\<close>

theorem add_task_ids_and_errors:
  "((\<forall>f\<in>set fs. f \<noteq> 0) \<longrightarrow>
      fst (add_all e fs scheduler_init) =
        map of_nat [0..<min (length fs) MAX_TASKS] @ replicate (length fs - MAX_TASKS) (- 1) \<and>
      unat (scheduler_get_task_count (snd (add_all e fs scheduler_init))) =
        min (length fs) MAX_TASKS) \<and>
   (unat (task_count s) = MAX_TASKS \<longrightarrow> scheduler_add_task e f s = (- 1, s)) \<and>
   scheduler_add_task e 0 s = (- 1, s) \<and>
   (unat (task_count s) < MAX_TASKS \<and> f \<noteq> 0 \<and> length (tasks s) = MAX_TASKS \<longrightarrow>
      fst (scheduler_add_task e f s) = task_count s \<and>
      scheduler_get_task_count (snd (scheduler_add_task e f s)) = scheduler_get_task_count s + 1 \<and>
      unat (scheduler_get_task_count (snd (scheduler_add_task e f s))) = unat (task_count s) + 1 \<and>
      state (task_at (snd (scheduler_add_task e f s)) (unat (task_count s))) = TASK_READY \<and>
      delay_ticks (task_at (snd (scheduler_add_task e f s)) (unat (task_count s))) = 0)"
proof -
  have init: "length (tasks scheduler_init) = MAX_TASKS" "unat (task_count scheduler_init) = 0"
    by (simp_all add: scheduler_init_def)
  have a: "(\<forall>f\<in>set fs. f \<noteq> 0) \<longrightarrow>
      fst (add_all e fs scheduler_init) =
        map of_nat [0..<min (length fs) MAX_TASKS] @ replicate (length fs - MAX_TASKS) (- 1) \<and>
      unat (scheduler_get_task_count (snd (add_all e fs scheduler_init))) =
        min (length fs) MAX_TASKS"
    using add_all_ids[of scheduler_init fs e] init
    by (simp add: scheduler_get_task_count_def)
  have b: "unat (task_count s) = MAX_TASKS \<longrightarrow> scheduler_add_task e f s = (- 1, s)"
    by (simp add: add_fail)
  have c: "scheduler_add_task e 0 s = (- 1, s)"
    by (simp add: add_fail)
  have d: "unat (task_count s) < MAX_TASKS \<and> f \<noteq> 0 \<and> length (tasks s) = MAX_TASKS \<longrightarrow>
      fst (scheduler_add_task e f s) = task_count s \<and>
      scheduler_get_task_count (snd (scheduler_add_task e f s)) = scheduler_get_task_count s + 1 \<and>
      unat (scheduler_get_task_count (snd (scheduler_add_task e f s))) = unat (task_count s) + 1 \<and>
      state (task_at (snd (scheduler_add_task e f s)) (unat (task_count s))) = TASK_READY \<and>
      delay_ticks (task_at (snd (scheduler_add_task e f s)) (unat (task_count s))) = 0"
    by (simp add: add_ok scheduler_get_task_count_def unat_inc_small)
  show ?thesis using a b c d by blast
qed

theorem add_task_ids_and_errors_witness:
  "fst (add_all 0x0100 (replicate 10 0x0200) scheduler_init) = [0, 1, 2, 3, 4, 5, 6, 7, - 1, - 1] \<and>
   unat (scheduler_get_task_count (snd (add_all 0x0100 (replicate 10 0x0200) scheduler_init))) = 8 \<and>
   scheduler_add_task 0x0100 0x0200 (snd (add_all 0x0100 (replicate 10 0x0200) scheduler_init)) =
     (- 1, snd (add_all 0x0100 (replicate 10 0x0200) scheduler_init)) \<and>
   scheduler_add_task 0x0100 0 scheduler_init = (- 1, scheduler_init) \<and>
   fst (scheduler_add_task 0x0100 0x0200 scheduler_init) = 0 \<and>
   unat (scheduler_get_task_count (snd (scheduler_add_task 0x0100 0x0200 scheduler_init))) = 1 \<and>
   state (task_at (snd (scheduler_add_task 0x0100 0x0200 scheduler_init)) 0) = TASK_READY \<and>
   delay_ticks (task_at (snd (scheduler_add_task 0x0100 0x0200 scheduler_init)) 0) = 0"
proof -
  have h1: "\<forall>f\<in>set (replicate 10 (0x0200 :: 16 word)). f \<noteq> 0" by simp
  have full: "unat (task_count (snd (add_all 0x0100 (replicate 10 0x0200) scheduler_init))) = MAX_TASKS"
    by code_simp
  have h3: "unat (task_count scheduler_init) < MAX_TASKS \<and> (0x0200 :: 16 word) \<noteq> 0 \<and>
            length (tasks scheduler_init) = MAX_TASKS"
    by (simp add: scheduler_init_def MAX_TASKS_def)
  have z: "task_count scheduler_init = 0" by (simp add: scheduler_init_def)
  have up: "[0..<8] = [0, 1, 2, 3, 4, 5, 6, 7]" by code_simp
  show ?thesis
    using add_task_ids_and_errors[of "replicate 10 0x0200" "0x0100"
        "snd (add_all 0x0100 (replicate 10 0x0200) scheduler_init)" "0x0200"]
      add_task_ids_and_errors[of "[]" "0x0100" scheduler_init "0x0200"]
      h1 full h3 z up
    by (simp add: MAX_TASKS_def scheduler_get_task_count_def numeral_eq_Suc)
qed

section \<open>Yield: the scan and its precondition (C9), the counters (C7)\<close>

text \<open>
  C9. With no task registered the scan of \<^verbatim>\<open>scheduler_yield\<close> takes a remainder modulo zero:
  there is no guard, the loop and therefore the call end in that fault. With at least one
  task registered (in a state that respects the bounds of the array) the remainder is
  defined, the loop is left after at least one and at most \<open>task_count\<close> probes with a
  registered task as \<open>next_task\<close>, and the call returns.
\<close>

theorem yield_scan_bounded:
  "(task_count s = 0 \<longrightarrow>
      scan s nx ch = Inl DivisionByZero \<and> scheduler_yield s = Inl DivisionByZero) \<and>
   (valid s \<and> task_count s \<noteq> 0 \<longrightarrow>
      (\<exists>next_task tasks_checked.
          scan s (current_task s) 0 = Inr (next_task, tasks_checked) \<and>
          1 \<le> unat tasks_checked \<and> unat tasks_checked \<le> unat (task_count s) \<and>
          unat next_task < unat (task_count s)) \<and>
      (\<exists>s'. scheduler_yield s = Inr s'))"
proof (intro conjI impI)
  assume z: "task_count s = 0"
  show "scan s nx ch = Inl DivisionByZero"
    using z by (subst scan.simps) simp
  show "scheduler_yield s = Inl DivisionByZero"
    using z by (simp add: scheduler_yield_def Let_def scan.simps[of _ "current_task s" 0])
next
  assume a: "valid s \<and> task_count s \<noteq> 0"
  then have n0: "task_count s \<noteq> 0" and nmax: "unat (task_count s) \<le> MAX_TASKS"
    by (auto simp: valid_def)
  have npos: "0 < unat (task_count s)" using n0 by (simp add: unat_gt_0)
  from scan_char[OF n0 nmax, of 0 "current_task s"] npos
  obtain d where d: "1 \<le> d" "d \<le> unat (task_count s)"
    "scan s (current_task s) 0 =
       Inr (of_nat ((unat (current_task s) + d) mod unat (task_count s)), of_nat d)"
    by auto
  have ud: "unat (of_nat d :: 8 word) = d"
    using d(2) nmax by (simp add: unat_of_nat_small)
  have "(unat (current_task s) + d) mod unat (task_count s) < unat (task_count s)"
    using npos by simp
  moreover from this have
    "unat (of_nat ((unat (current_task s) + d) mod unat (task_count s)) :: 8 word) =
       (unat (current_task s) + d) mod unat (task_count s)"
    using nmax by (simp add: unat_of_nat_small)
  ultimately show "\<exists>next_task tasks_checked.
          scan s (current_task s) 0 = Inr (next_task, tasks_checked) \<and>
          1 \<le> unat tasks_checked \<and> unat tasks_checked \<le> unat (task_count s) \<and>
          unat next_task < unat (task_count s)"
    using d ud by auto
  show "\<exists>s'. scheduler_yield s = Inr s'"
    using a by (simp add: yield_returns)
qed

theorem yield_scan_bounded_witness:
  "scheduler_yield scheduler_init = Inl DivisionByZero \<and>
   valid two_started \<and> task_count two_started \<noteq> 0 \<and>
   (\<exists>next_task tasks_checked.
       scan two_started (current_task two_started) 0 = Inr (next_task, tasks_checked) \<and>
       1 \<le> unat tasks_checked \<and> unat tasks_checked \<le> 2 \<and> unat next_task < 2) \<and>
   (\<exists>s'. scheduler_yield two_started = Inr s')"
proof -
  have z: "task_count scheduler_init = 0" by (simp add: scheduler_init_def)
  have v: "valid two_started" by code_simp
  have tc: "task_count two_started = 2" by code_simp
  show ?thesis
    using yield_scan_bounded[of scheduler_init 0 0] yield_scan_bounded[of two_started 0 0] z v tc
    by simp
qed

text \<open>
  C7. Every call of \<^verbatim>\<open>scheduler_yield\<close> adds one to \<open>voluntary_yields\<close> (the 32-bit
  increment of the debug build), whether or not a switch takes place; with exactly one
  registered task it changes neither \<open>current_task\<close> nor \<open>context_switches\<close>.
\<close>

theorem yield_counts_and_single_task:
  assumes "valid s" "task_count s \<noteq> 0"
  shows "\<exists>s'. scheduler_yield s = Inr s' \<and>
           voluntary_yields (debug_stats s') = voluntary_yields (debug_stats s) + 1 \<and>
           (task_count s = 1 \<longrightarrow>
              current_task s' = current_task s \<and>
              context_switches (debug_stats s') = context_switches (debug_stats s))"
  using assms
proof (cases rule: yield_cases)
  case stay
  then show ?thesis by simp
next
  case (switch d s')
  then show ?thesis by auto
qed

theorem yield_counts_and_single_task_witness:
  "valid one_started \<and> task_count one_started = 1 \<and>
   (\<exists>s'. scheduler_yield one_started = Inr s' \<and>
      voluntary_yields (debug_stats s') = 1 \<and> current_task s' = 0 \<and>
      context_switches (debug_stats s') = 0)"
proof -
  have v: "valid one_started" by code_simp
  have tc: "task_count one_started = 1" by code_simp
  have c: "current_task one_started = 0" by code_simp
  have d: "voluntary_yields (debug_stats one_started) = 0"
     "context_switches (debug_stats one_started) = 0" by code_simp+
  show ?thesis
    using yield_counts_and_single_task[of one_started] v tc c d by simp
qed

section \<open>Delay of zero ticks (C8)\<close>

text \<open>
  C8. \<^verbatim>\<open>task_delay(0)\<close> returns at once with the scheduler exactly as it was: the state and
  \<open>delay_ticks\<close> of the caller, every other task, \<open>current_task\<close> and the debug counters,
  among them \<open>voluntary_yields\<close>, are unchanged, since \<^verbatim>\<open>scheduler_yield\<close> is not reached.
\<close>

theorem delay_zero_is_noop: "task_delay 0 s = Inr s"
  by (simp add: task_delay_def)

section \<open>Task statistics (C10)\<close>

text \<open>
  C10. \<^verbatim>\<open>scheduler_get_task_stats\<close> returns \<open>-1\<close> exactly when the id is not below
  \<open>task_count\<close>, and then leaves both output cells alone. For a registered id it returns 0,
  stores \<open>runtime_ticks\<close> and \<open>times_scheduled\<close> of that task through the pointers that are
  not null and accepts null for either.
\<close>

theorem get_task_stats_result:
  assumes "valid s"
  shows "(task_count s \<le> tid \<longrightarrow>
            scheduler_get_task_stats s tid r t = Inr (- 1, r, t)) \<and>
         (tid < task_count s \<longrightarrow>
            scheduler_get_task_stats s tid r t =
              Inr (0, map_option (\<lambda>_. runtime_ticks (task_at s (unat tid))) r,
                      map_option (\<lambda>_. times_scheduled (task_at s (unat tid))) t)) \<and>
         (\<forall>ret r' t'. scheduler_get_task_stats s tid r t = Inr (ret, r', t') \<longrightarrow>
            (sint ret = - 1 \<longleftrightarrow> task_count s \<le> tid))"
  using assms
  by (auto simp: scheduler_get_task_stats_def valid_def in_array_def word_le_nat_alt word_less_nat_alt
      split: option.splits)

theorem get_task_stats_result_witness:
  "valid two_started \<and>
   scheduler_get_task_stats two_started 1 (Some 7) None = Inr (0, Some 0, None) \<and>
   scheduler_get_task_stats two_started 2 (Some 7) None = Inr (- 1, Some 7, None)"
proof -
  have v: "valid two_started" by code_simp
  have tc: "task_count two_started = 2" by code_simp
  have rt: "runtime_ticks (task_at two_started (unat (1 :: 8 word))) = 0" by code_simp
  show ?thesis
    using v tc rt get_task_stats_result[OF v, of 1 "Some 7" None]
      get_task_stats_result[OF v, of 2 "Some 7" None]
    by simp
qed

section \<open>Invariants of the scheduler state\<close>

subsection \<open>The tick handler on one task\<close>

lemma state_tick_task:
  "state (tick_task t) =
     (if delay_ticks t = 1 \<and> state t = TASK_BLOCKED then TASK_READY else state t)"
proof -
  have "delay_ticks t - 1 = 0 \<longleftrightarrow> delay_ticks t = 1" by auto
  then show ?thesis
    by (auto simp: tick_task_def Let_def word_greater_zero_iff)
qed

lemma delay_tick_task:
  "delay_ticks (tick_task t) = (if delay_ticks t = 0 then 0 else delay_ticks t - 1)"
  by (auto simp: tick_task_def Let_def word_greater_zero_iff)

lemma delay_loop_frame [simp]:
  "task_count (delay_loop k s) = task_count s"
  "current_task (delay_loop k s) = current_task s"
  "scheduler_running (delay_loop k s) = scheduler_running s"
  "debug_stats (delay_loop k s) = debug_stats s"
  "length (tasks (delay_loop k s)) = length (tasks s)"
  by (induction k) (simp_all add: upd_task_def)

lemma delay_loop_task:
  "i < length (tasks s) \<Longrightarrow>
   task_at (delay_loop k s) i = (if i < k then tick_task (task_at s i) else task_at s i)"
proof (induction k)
  case 0
  then show ?case by simp
next
  case (Suc k)
  then show ?case
    by (cases "i = k") (auto simp: upd_task_def task_at_def nth_list_update)
qed

lemma isr_char:
  assumes v: "valid s"
  shows "\<exists>s'. timer0_compa_isr s = Inr s' \<and>
           task_count s' = task_count s \<and> current_task s' = current_task s \<and>
           scheduler_running s' = scheduler_running s \<and>
           length (tasks s') = length (tasks s) \<and>
           voluntary_yields (debug_stats s') = voluntary_yields (debug_stats s) \<and>
           context_switches (debug_stats s') = context_switches (debug_stats s) \<and>
           (\<forall>i<MAX_TASKS.
              state (task_at s' i) =
                (if scheduler_running s \<noteq> 0 \<and> i < unat (task_count s)
                 then state (tick_task (task_at s i)) else state (task_at s i)) \<and>
              delay_ticks (task_at s' i) =
                (if scheduler_running s \<noteq> 0 \<and> i < unat (task_count s)
                 then delay_ticks (tick_task (task_at s i)) else delay_ticks (task_at s i)))"
proof (cases "scheduler_running s = 0 \<or> task_count s = 0")
  case True
  then show ?thesis
    by (auto simp: timer0_compa_isr_def unat_eq_0)
next
  case False
  have len: "length (tasks s) = MAX_TASKS" and nmax: "unat (task_count s) \<le> MAX_TASKS"
    using v by (auto simp: valid_def)
  have c: "unat (current_task s) < MAX_TASKS" using v by (rule valid_current_small)
  define s2 where "s2 =
     (if state (task_at s (unat (current_task s))) = TASK_RUNNING
      then upd_task (unat (current_task s)) (\<lambda>t. t\<lparr>runtime_ticks := runtime_ticks t + 1\<rparr>)
             (s\<lparr>debug_stats := (debug_stats s)\<lparr>total_ticks := total_ticks (debug_stats s) + 1\<rparr>\<rparr>)
      else s\<lparr>debug_stats := (debug_stats s)\<lparr>total_ticks := total_ticks (debug_stats s) + 1\<rparr>\<rparr>)"
  have fr: "task_count s2 = task_count s" "current_task s2 = current_task s"
    "scheduler_running s2 = scheduler_running s" "length (tasks s2) = MAX_TASKS"
    "voluntary_yields (debug_stats s2) = voluntary_yields (debug_stats s)"
    "context_switches (debug_stats s2) = context_switches (debug_stats s)"
    using len by (simp_all add: s2_def upd_task_def)
  have r: "timer0_compa_isr s = Inr (delay_loop (unat (task_count s)) s2)"
    using False c nmax
    by (simp add: timer0_compa_isr_def in_array_def Let_def upd_task_def s2_def task_at_def)
  have st2: "state (task_at s2 i) = state (task_at s i) \<and>
             delay_ticks (task_at s2 i) = delay_ticks (task_at s i)" if "i < MAX_TASKS" for i
    using len c that by (auto simp: s2_def upd_task_def task_at_def nth_list_update)
  have tt: "state (tick_task (task_at s2 i)) = state (tick_task (task_at s i)) \<and>
            delay_ticks (tick_task (task_at s2 i)) = delay_ticks (tick_task (task_at s i))"
    if "i < MAX_TASKS" for i
    using st2[OF that] by (simp add: state_tick_task delay_tick_task)
  have tasks': "state (task_at (delay_loop (unat (task_count s)) s2) i) =
                (if scheduler_running s \<noteq> 0 \<and> i < unat (task_count s)
                 then state (tick_task (task_at s i)) else state (task_at s i)) \<and>
              delay_ticks (task_at (delay_loop (unat (task_count s)) s2) i) =
                (if scheduler_running s \<noteq> 0 \<and> i < unat (task_count s)
                 then delay_ticks (tick_task (task_at s i)) else delay_ticks (task_at s i))"
    if "i < MAX_TASKS" for i
    using that False st2[OF that] tt[OF that] fr(4) by (simp add: delay_loop_task)
  show ?thesis
    using r fr tasks' len by simp
qed

subsection \<open>Every event keeps a valid state valid, and only the current task Running\<close>

lemma ocr_iff:
  "only_current_running s \<longleftrightarrow>
     (\<forall>i<MAX_TASKS. state (task_at s i) = TASK_RUNNING \<longrightarrow> i = unat (current_task s))"
  by (auto simp: only_current_running_def)

lemma yield_inv:
  assumes v: "valid s" and n0: "task_count s \<noteq> 0" and o: "only_current_running s"
  shows "\<exists>s'. scheduler_yield s = Inr s' \<and> valid s' \<and> task_count s' = task_count s \<and>
           scheduler_running s' = scheduler_running s \<and> only_current_running s'"
  using v n0
proof (cases rule: yield_cases)
  case stay
  then show ?thesis
    using v o by (auto simp: valid_def ocr_iff task_at_def)
next
  case (switch d s')
  have npos: "0 < unat (task_count s)" using n0 by (simp add: unat_gt_0)
  have v': "valid s'"
    using v switch(7,9,15) npos by (auto simp: valid_def)
  have "only_current_running s'"
    unfolding ocr_iff
  proof (intro allI impI)
    fix i assume i: "i < MAX_TASKS" and r: "state (task_at s' i) = TASK_RUNNING"
    show "i = unat (current_task s')"
    proof (rule ccontr)
      assume ne: "i \<noteq> unat (current_task s')"
      show False
      proof (cases "i = unat (current_task s)")
        case True
        then show ?thesis using r switch(13) by (auto split: if_splits)
      next
        case False
        then have "task_at s' i = task_at s i" using ne switch(11) by simp
        then show ?thesis using r o i False by (auto simp: ocr_iff)
      qed
    qed
  qed
  then show ?thesis using switch(5,7,8) v' by simp
qed

lemma add_inv:
  assumes v: "valid s" and o: "only_current_running s"
  shows "valid (snd (scheduler_add_task e f s)) \<and>
         only_current_running (snd (scheduler_add_task e f s)) \<and>
         (task_count s \<noteq> 0 \<longrightarrow> task_count (snd (scheduler_add_task e f s)) \<noteq> 0) \<and>
         scheduler_running (snd (scheduler_add_task e f s)) = scheduler_running s \<and>
         current_task (snd (scheduler_add_task e f s)) = current_task s"
proof (cases "MAX_TASKS \<le> unat (task_count s) \<or> f = 0")
  case True
  then show ?thesis using v o by (simp add: add_fail)
next
  case False
  then have lt: "unat (task_count s) < MAX_TASKS" and f: "f \<noteq> 0" by auto
  have len: "length (tasks s) = MAX_TASKS" using v by (simp add: valid_def)
  note ok = add_ok[OF lt f len, where e = e]
  have "valid (snd (scheduler_add_task e f s))"
    using v ok(3,4,9) lt by (auto simp: valid_def)
  moreover have "only_current_running (snd (scheduler_add_task e f s))"
    unfolding ocr_iff
  proof (intro allI impI)
    fix i assume i: "i < MAX_TASKS"
      and r: "state (task_at (snd (scheduler_add_task e f s)) i) = TASK_RUNNING"
    have "i \<noteq> unat (task_count s)" using r ok(5) by auto
    then have "task_at (snd (scheduler_add_task e f s)) i = task_at s i" by (rule ok(8))
    then show "i = unat (current_task (snd (scheduler_add_task e f s)))"
      using r o i ok(9) by (auto simp: ocr_iff)
  qed
  moreover have "task_count (snd (scheduler_add_task e f s)) \<noteq> 0"
    using ok(3) by (metis Zero_not_Suc unat_0)
  ultimately show ?thesis using ok(9,10) by simp
qed

lemma suspend_inv:
  assumes v: "valid s" and o: "only_current_running s"
  shows "\<exists>s'. scheduler_suspend_task tid s = Inr s' \<and> valid s' \<and> task_count s' = task_count s \<and>
           scheduler_running s' = scheduler_running s \<and> current_task s' = current_task s \<and>
           only_current_running s'"
proof (cases "tid < task_count s")
  case True
  then have t: "unat tid < MAX_TASKS" using v by (auto simp: valid_def word_less_nat_alt)
  show ?thesis
    using True t v o
    by (auto simp: scheduler_suspend_task_def in_array_def valid_def ocr_iff upd_task_def task_at_def
        nth_list_update)
next
  case False
  then show ?thesis using v o by (simp add: scheduler_suspend_task_def)
qed

lemma resume_inv:
  assumes v: "valid s" and o: "only_current_running s"
  shows "\<exists>s'. scheduler_resume_task tid s = Inr s' \<and> valid s' \<and> task_count s' = task_count s \<and>
           scheduler_running s' = scheduler_running s \<and> current_task s' = current_task s \<and>
           only_current_running s'"
proof (cases "tid < task_count s")
  case True
  then have t: "unat tid < MAX_TASKS" using v by (auto simp: valid_def word_less_nat_alt)
  show ?thesis
    using True t v o
    by (auto simp: scheduler_resume_task_def in_array_def valid_def ocr_iff upd_task_def task_at_def
        nth_list_update)
next
  case False
  then show ?thesis using v o by (simp add: scheduler_resume_task_def)
qed

lemma isr_inv:
  assumes v: "valid s" and o: "only_current_running s"
  shows "\<exists>s'. timer0_compa_isr s = Inr s' \<and> valid s' \<and> task_count s' = task_count s \<and>
           scheduler_running s' = scheduler_running s \<and> current_task s' = current_task s \<and>
           only_current_running s'"
proof -
  from isr_char[OF v] obtain s' where s':
    "timer0_compa_isr s = Inr s'" "task_count s' = task_count s" "current_task s' = current_task s"
    "scheduler_running s' = scheduler_running s" "length (tasks s') = length (tasks s)"
    "\<forall>i<MAX_TASKS.
        state (task_at s' i) =
          (if scheduler_running s \<noteq> 0 \<and> i < unat (task_count s)
           then state (tick_task (task_at s i)) else state (task_at s i)) \<and>
        delay_ticks (task_at s' i) =
          (if scheduler_running s \<noteq> 0 \<and> i < unat (task_count s)
           then delay_ticks (tick_task (task_at s i)) else delay_ticks (task_at s i))"
    by blast
  have "valid s'" using v s'(2,3,5) by (simp add: valid_def)
  moreover have "only_current_running s'"
    unfolding ocr_iff
  proof (intro allI impI)
    fix i assume i: "i < MAX_TASKS" and r: "state (task_at s' i) = TASK_RUNNING"
    have "state (task_at s i) = TASK_RUNNING"
      using r s'(6) i by (auto simp: state_tick_task split: if_splits)
    then show "i = unat (current_task s')" using o i s'(3) by (auto simp: ocr_iff)
  qed
  ultimately show ?thesis using s'(1,2,3,4) by simp
qed

lemma block_current_inv:
  assumes v: "valid s" and o: "only_current_running s"
  shows "valid (upd_task (unat (current_task s)) (\<lambda>t. t\<lparr>delay_ticks := k, state := TASK_BLOCKED\<rparr>) s) \<and>
         only_current_running (upd_task (unat (current_task s)) (\<lambda>t. t\<lparr>delay_ticks := k, state := TASK_BLOCKED\<rparr>) s) \<and>
         valid (upd_task (unat (current_task s)) (\<lambda>t. t\<lparr>state := TASK_BLOCKED\<rparr>) s) \<and>
         only_current_running (upd_task (unat (current_task s)) (\<lambda>t. t\<lparr>state := TASK_BLOCKED\<rparr>) s)"
  using v o valid_current_small[OF v]
  by (auto simp: valid_def ocr_iff upd_task_def task_at_def nth_list_update)

lemma delay_inv:
  assumes v: "valid s" and n0: "task_count s \<noteq> 0" and o: "only_current_running s"
  shows "\<exists>s'. task_delay k s = Inr s' \<and> valid s' \<and> task_count s' = task_count s \<and>
           scheduler_running s' = scheduler_running s \<and> only_current_running s'"
proof (cases "k = 0")
  case True
  then show ?thesis using v o by (simp add: task_delay_def)
next
  case False
  let ?b = "upd_task (unat (current_task s)) (\<lambda>t. t\<lparr>delay_ticks := k, state := TASK_BLOCKED\<rparr>) s"
  have b: "valid ?b" "only_current_running ?b" using block_current_inv[OF v o] by auto
  have fr: "task_count ?b = task_count s" "scheduler_running ?b = scheduler_running s"
    by (simp_all add: upd_task_def)
  have "task_delay k s = scheduler_yield ?b"
    using False valid_current_small[OF v] by (simp add: task_delay_def in_array_def)
  then show ?thesis
    using yield_inv[OF b(1) _ b(2)] n0 fr by auto
qed

lemma exit_inv:
  assumes v: "valid s" and o: "only_current_running s"
  shows "\<exists>s'. task_exit_enter s = Inr s' \<and> valid s' \<and> task_count s' = task_count s \<and>
           scheduler_running s' = scheduler_running s \<and> current_task s' = current_task s \<and>
           only_current_running s'"
  using block_current_inv[OF v o] valid_current_small[OF v]
  by (simp add: task_exit_enter_def in_array_def upd_task_def)

lemma step_inv:
  assumes "valid s" "task_count s \<noteq> 0" "only_current_running s"
  shows "\<exists>s'. step e ev s = Inr s' \<and> valid s' \<and> task_count s' \<noteq> 0 \<and> only_current_running s'"
proof (cases ev)
  case (Add f)
  then show ?thesis using add_inv[OF assms(1,3), of e f] assms(2) by simp
next
  case (Suspend tid)
  then show ?thesis using suspend_inv[OF assms(1,3), of tid] assms(2) by auto
next
  case (Resume tid)
  then show ?thesis using resume_inv[OF assms(1,3), of tid] assms(2) by auto
next
  case Yield
  then show ?thesis using yield_inv[OF assms] assms(2) by auto
next
  case (Delay k)
  then show ?thesis using delay_inv[OF assms, of k] assms(2) by auto
next
  case Tick
  then show ?thesis using isr_inv[OF assms(1,3)] assms(2) by auto
next
  case Exit
  then show ?thesis using exit_inv[OF assms(1,3)] assms(2) by auto
qed

lemma exec_inv:
  assumes "valid s" "task_count s \<noteq> 0" "only_current_running s"
  shows "\<exists>s'. exec e evs s = Inr s' \<and> valid s' \<and> task_count s' \<noteq> 0 \<and> only_current_running s'"
  using assms
proof (induction evs arbitrary: s)
  case Nil
  then show ?case by simp
next
  case (Cons ev evs)
  from step_inv[OF Cons.prems, of e ev] obtain s1 where
    s1: "step e ev s = Inr s1" "valid s1" "task_count s1 \<noteq> 0" "only_current_running s1" by blast
  from Cons.IH[OF s1(2,3,4)] show ?case using s1(1) by simp
qed

lemma none_running_ocr:
  "\<forall>i<MAX_TASKS. state (task_at s i) \<noteq> TASK_RUNNING \<Longrightarrow> only_current_running s"
  by (simp add: ocr_iff)

lemma setup_step:
  assumes v: "valid s" and nr: "\<forall>i<MAX_TASKS. state (task_at s i) \<noteq> TASK_RUNNING"
    and su: "is_setup ev" and st: "step e ev s = Inr s'"
  shows "valid s' \<and> (\<forall>i<MAX_TASKS. state (task_at s' i) \<noteq> TASK_RUNNING)"
proof (cases ev)
  case (Add f)
  show ?thesis
  proof (cases "MAX_TASKS \<le> unat (task_count s) \<or> f = 0")
    case True
    then show ?thesis using v nr st Add by (simp add: add_fail)
  next
    case False
    then have lt: "unat (task_count s) < MAX_TASKS" and f: "f \<noteq> 0" by auto
    have len: "length (tasks s) = MAX_TASKS" using v by (simp add: valid_def)
    note ok = add_ok[OF lt f len, where e = e]
    have s': "s' = snd (scheduler_add_task e f s)" using st Add by simp
    have "valid s'"
      using add_inv[OF v none_running_ocr[OF nr], of e f] s' by simp
    moreover have "state (task_at s' i) \<noteq> TASK_RUNNING" if "i < MAX_TASKS" for i
    proof (cases "i = unat (task_count s)")
      case True
      then show ?thesis using ok(5) s' by simp
    next
      case False
      then show ?thesis using ok(8)[OF False] nr that s' by simp
    qed
    ultimately show ?thesis by simp
  qed
next
  case (Suspend tid)
  show ?thesis
  proof (cases "tid < task_count s")
    case True
    then have t: "unat tid < MAX_TASKS" using v by (auto simp: valid_def word_less_nat_alt)
    show ?thesis
      using True t v nr st Suspend
      by (auto simp: scheduler_suspend_task_def in_array_def valid_def upd_task_def task_at_def
          nth_list_update split: if_splits)
  next
    case False
    then show ?thesis using v nr st Suspend by (simp add: scheduler_suspend_task_def)
  qed
next
  case (Resume tid)
  show ?thesis
  proof (cases "tid < task_count s")
    case True
    then have t: "unat tid < MAX_TASKS" using v by (auto simp: valid_def word_less_nat_alt)
    show ?thesis
      using True t v nr st Resume
      by (auto simp: scheduler_resume_task_def in_array_def valid_def upd_task_def task_at_def
          nth_list_update split: if_splits)
  next
    case False
    then show ?thesis using v nr st Resume by (simp add: scheduler_resume_task_def)
  qed
next
  case Tick
  from isr_char[OF v] st Tick have
    fr: "task_count s' = task_count s" "current_task s' = current_task s"
        "length (tasks s') = length (tasks s)"
    and ts: "\<forall>i<MAX_TASKS.
        state (task_at s' i) =
          (if scheduler_running s \<noteq> 0 \<and> i < unat (task_count s)
           then state (tick_task (task_at s i)) else state (task_at s i))"
    by auto
  have "valid s'" using v fr by (simp add: valid_def)
  moreover have "state (task_at s' i) \<noteq> TASK_RUNNING" if "i < MAX_TASKS" for i
    using ts nr that by (auto simp: state_tick_task)
  ultimately show ?thesis by simp
qed (use su in simp_all)

lemma setup_exec:
  assumes "valid s" "\<forall>i<MAX_TASKS. state (task_at s i) \<noteq> TASK_RUNNING"
    and "\<forall>ev\<in>set evs. is_setup ev" and "exec e evs s = Inr s'"
  shows "valid s' \<and> (\<forall>i<MAX_TASKS. state (task_at s' i) \<noteq> TASK_RUNNING)"
  using assms
proof (induction evs arbitrary: s)
  case Nil
  then show ?case by simp
next
  case (Cons ev evs)
  from Cons.prems(4) obtain s1 where s1: "step e ev s = Inr s1" "exec e evs s1 = Inr s'"
    by (auto split: sum.splits)
  have "is_setup ev" using Cons.prems(3) by simp
  from setup_step[OF Cons.prems(1,2) this s1(1)]
  have "valid s1" "\<forall>i<MAX_TASKS. state (task_at s1 i) \<noteq> TASK_RUNNING" by auto
  from Cons.IH[OF this _ s1(2)] Cons.prems(3) show ?case by simp
qed

lemma init_valid:
  "valid scheduler_init" "\<forall>i<MAX_TASKS. state (task_at scheduler_init i) \<noteq> TASK_RUNNING"
  by (simp_all add: valid_def scheduler_init_def task_at_def cleared_task_def)

lemma start_facts:
  assumes v: "valid s" and nr: "\<forall>i<MAX_TASKS. state (task_at s i) \<noteq> TASK_RUNNING"
    and st: "scheduler_start s = Some s'"
  shows "valid s'" "task_count s' \<noteq> 0" "only_current_running s'" "running_tasks s' = [0]"
proof -
  have n0: "task_count s \<noteq> 0" using st by (auto simp: scheduler_start_def split: if_splits)
  have npos: "0 < unat (task_count s)" using n0 by (simp add: unat_gt_0)
  have s': "s' = (upd_task 0 (\<lambda>t. t\<lparr>state := TASK_RUNNING\<rparr>) (s\<lparr>current_task := 0\<rparr>))
                 \<lparr>scheduler_running := 1\<rparr>"
    using st n0 by (simp add: scheduler_start_def)
  have len: "length (tasks s) = MAX_TASKS" and nmax: "unat (task_count s) \<le> MAX_TASKS"
    using v by (auto simp: valid_def)
  show "valid s'" using v npos by (simp add: s' valid_def upd_task_def)
  show "task_count s' \<noteq> 0" using n0 by (simp add: s' upd_task_def)
  have st0: "state (task_at s' 0) = TASK_RUNNING"
    using len by (simp add: s' upd_task_def task_at_def MAX_TASKS_def)
  have sti: "state (task_at s' i) \<noteq> TASK_RUNNING" if "i < MAX_TASKS" "i \<noteq> 0" for i
    using nr that len by (simp add: s' upd_task_def task_at_def)
  show "only_current_running s'"
    unfolding ocr_iff using sti by (auto simp: s' upd_task_def)
  have tc: "task_count s' = task_count s" by (simp add: s' upd_task_def)
  have up: "[0..<unat (task_count s)] = 0 # [1..<unat (task_count s)]"
    using npos by (simp add: upt_conv_Cons)
  have "filter (\<lambda>i. state (task_at s' i) = TASK_RUNNING) [1..<unat (task_count s)] = []"
    using sti nmax by (auto simp: filter_empty_conv)
  then show "running_tasks s' = [0]"
    using st0 by (simp add: running_tasks_def tc up)
qed

lemma running_tasks_current:
  assumes v: "valid s" and o: "only_current_running s"
  shows "length (running_tasks s) \<le> 1 \<and> set (running_tasks s) \<subseteq> {unat (current_task s)}"
proof -
  have sub: "set (running_tasks s) \<subseteq> {unat (current_task s)}"
    using v o by (auto simp: running_tasks_def ocr_iff valid_def)
  have d: "distinct (running_tasks s)" by (simp add: running_tasks_def)
  have "card (set (running_tasks s)) \<le> card {unat (current_task s)}"
    using sub by (intro card_mono) auto
  then have "length (running_tasks s) \<le> 1"
    using d by (simp add: distinct_card)
  then show ?thesis using sub by simp
qed

section \<open>At most one Running task (C1)\<close>

text \<open>
  C1, as amended. Take any run that begins with \<^verbatim>\<open>scheduler_init\<close>, registers and configures
  tasks (add, suspend, resume; the tick handler may fire) and then calls \<^verbatim>\<open>scheduler_start\<close>
  with at least one task. Right after the start exactly one task, task 0, is Running. From
  then on every sequence of add, suspend, resume, yield, delay, tick and task exit runs
  without a fault and leaves at most one task Running, and a Running task is the current
  task. That exactly one task is Running is not kept: suspending the current task, a
  delay with no other task to switch to, or a task exit leave no task Running (the
  counterexample below).
\<close>

theorem at_most_one_running:
  assumes pre: "\<forall>ev\<in>set pre. is_setup ev"
    and s0: "exec e pre scheduler_init = Inr s0"
    and st: "scheduler_start s0 = Some s1"
  shows "running_tasks s1 = [0] \<and>
         (\<forall>evs. \<exists>s2. exec e evs s1 = Inr s2 \<and>
                  length (running_tasks s2) \<le> 1 \<and>
                  set (running_tasks s2) \<subseteq> {unat (current_task s2)})"
proof -
  from setup_exec[OF init_valid pre s0]
  have v0: "valid s0" and nr0: "\<forall>i<MAX_TASKS. state (task_at s0 i) \<noteq> TASK_RUNNING" by auto
  note sf = start_facts[OF v0 nr0 st]
  have "\<exists>s2. exec e evs s1 = Inr s2 \<and> length (running_tasks s2) \<le> 1 \<and>
             set (running_tasks s2) \<subseteq> {unat (current_task s2)}" for evs
  proof -
    from exec_inv[OF sf(1,2,3), of e evs] obtain s2 where
      "exec e evs s1 = Inr s2" "valid s2" "only_current_running s2" by blast
    then show ?thesis using running_tasks_current by blast
  qed
  then show ?thesis using sf(4) by blast
qed

theorem at_most_one_running_witness:
  "list_all is_setup [Add 0x0200, Add 0x0300] \<and>
   exec 0x0100 [Add 0x0200, Add 0x0300] scheduler_init =
     Inr (snd (add_all 0x0100 [0x0200, 0x0300] scheduler_init)) \<and>
   scheduler_start (snd (add_all 0x0100 [0x0200, 0x0300] scheduler_init)) = Some two_started \<and>
   running_tasks two_started = [0] \<and>
   (\<exists>s2. exec 0x0100 [Yield, Delay 3, Tick, Suspend 0, Exit] two_started = Inr s2 \<and>
          length (running_tasks s2) \<le> 1 \<and> set (running_tasks s2) \<subseteq> {unat (current_task s2)})"
proof -
  have h1: "\<forall>ev\<in>set [Add 0x0200, Add 0x0300]. is_setup ev" by simp
  have h2: "exec 0x0100 [Add 0x0200, Add 0x0300] scheduler_init =
     Inr (snd (add_all 0x0100 [0x0200, 0x0300] scheduler_init))"
    by (simp add: split_beta)
  have n2: "task_count (snd (add_all 0x0100 [0x0200, 0x0300] scheduler_init)) \<noteq> 0"
    by code_simp
  have h3: "scheduler_start (snd (add_all 0x0100 [0x0200, 0x0300] scheduler_init)) = Some two_started"
    using n2 by (simp add: two_started_def scheduler_start_def)
  have c: "running_tasks two_started = [0] \<and>
     (\<exists>s2. exec 0x0100 [Yield, Delay 3, Tick, Suspend 0, Exit] two_started = Inr s2 \<and>
          length (running_tasks s2) \<le> 1 \<and> set (running_tasks s2) \<subseteq> {unat (current_task s2)})"
    using at_most_one_running[OF h1 h2 h3] by blast
  have l: "list_all is_setup [Add 0x0200, Add 0x0300]" by simp
  show ?thesis
    using c l h2 h3 by blast
qed

text \<open>
  On a started scheduler with one task, which is Running, \<^verbatim>\<open>scheduler_suspend_task(0)\<close> and
  \<^verbatim>\<open>task_delay(5)\<close> each return a state in which the scheduler still runs and no task is
  Running. And when \<^verbatim>\<open>scheduler_yield\<close> is called before \<^verbatim>\<open>scheduler_start\<close>, with two tasks
  registered, the start leaves tasks 0 and 1 both Running, which is why the runs above
  call nothing but setup operations before the start.
\<close>

theorem exactly_one_running_counterexample:
  "scheduler_running one_started = 1 \<and> running_tasks one_started = [0] \<and>
   map_sum id (\<lambda>s. (scheduler_running s, running_tasks s)) (scheduler_suspend_task 0 one_started)
     = Inr (1, []) \<and>
   map_sum id (\<lambda>s. (scheduler_running s, running_tasks s)) (task_delay 5 one_started)
     = Inr (1, []) \<and>
   map_option running_tasks
     (case exec 0x0100 [Add 0x0200, Add 0x0300, Yield] scheduler_init of
        Inl e \<Rightarrow> None | Inr s \<Rightarrow> scheduler_start s) = Some [0, 1]"
  by code_simp

section \<open>Tasks that are not eligible, through ticks and yields\<close>

lemma upd_task_valid [simp]: "valid (upd_task i f s) = valid s"
  by (simp add: valid_def upd_task_def)

lemma upd_task_frame [simp]:
  "task_count (upd_task i f s) = task_count s"
  "current_task (upd_task i f s) = current_task s"
  "scheduler_running (upd_task i f s) = scheduler_running s"
  "debug_stats (upd_task i f s) = debug_stats s"
  "length (tasks (upd_task i f s)) = length (tasks s)"
  by (simp_all add: upd_task_def)

lemma task_at_upd_task:
  "i < length (tasks s) \<Longrightarrow>
   task_at (upd_task i f s) j = (if j = i then f (task_at s i) else task_at s j)"
  by (auto simp: upd_task_def task_at_def)

lemma exec_append:
  "exec e (xs @ ys) s = (case exec e xs s of Inl f \<Rightarrow> Inl f | Inr s' \<Rightarrow> exec e ys s')"
  by (induction xs arbitrary: s) (auto split: sum.splits)

lemma yield_parked:
  assumes v: "valid s" and n0: "task_count s \<noteq> 0" and ne: "\<not> eligible s i"
  shows "\<exists>s'. scheduler_yield s = Inr s' \<and> valid s' \<and> task_count s' = task_count s \<and>
           scheduler_running s' = scheduler_running s \<and> task_at s' i = task_at s i \<and>
           (current_task s' \<noteq> current_task s \<longrightarrow> unat (current_task s') \<noteq> i)"
  using v n0
proof (cases rule: yield_cases)
  case stay
  then show ?thesis using v by (auto simp: valid_def task_at_def)
next
  case (switch d s')
  have npos: "0 < unat (task_count s)" using n0 by (simp add: unat_gt_0)
  have v': "valid s'"
    using v switch(7,9,15) npos by (auto simp: valid_def)
  have t: "unat (current_task s') = (unat (current_task s) + d) mod unat (task_count s)"
    by (rule switch(16))
  then have it: "i \<noteq> unat (current_task s')" using switch(4) ne by auto
  have "task_at s' i = task_at s i"
  proof (cases "i = unat (current_task s)")
    case True
    then have "state (task_at s (unat (current_task s))) \<noteq> TASK_RUNNING"
      using ne by (auto simp: eligible_def)
    then show ?thesis using switch(13) True by simp
  next
    case False
    then show ?thesis using switch(11) it by simp
  qed
  then show ?thesis using switch(5,7,8) v' it by auto
qed

lemma parked_step:
  assumes v: "valid s" and n0: "task_count s \<noteq> 0" and i: "i < unat (task_count s)"
    and ne: "\<not> eligible s i" and ty: "is_tick_or_yield ev"
  shows "\<exists>s'. step e ev s = Inr s' \<and> valid s' \<and> task_count s' = task_count s \<and>
           scheduler_running s' = scheduler_running s \<and>
           state (task_at s' i) =
             (if ev = Tick \<and> scheduler_running s \<noteq> 0
              then state (tick_task (task_at s i)) else state (task_at s i)) \<and>
           delay_ticks (task_at s' i) =
             (if ev = Tick \<and> scheduler_running s \<noteq> 0
              then delay_ticks (tick_task (task_at s i)) else delay_ticks (task_at s i))"
proof (cases ev)
  case Yield
  then show ?thesis using yield_parked[OF v n0 ne] by auto
next
  case Tick
  have im: "i < MAX_TASKS" using i v by (auto simp: valid_def)
  from isr_char[OF v] obtain s' where s':
    "timer0_compa_isr s = Inr s'" "task_count s' = task_count s" "current_task s' = current_task s"
    "scheduler_running s' = scheduler_running s" "length (tasks s') = length (tasks s)"
    "\<forall>i<MAX_TASKS.
        state (task_at s' i) =
          (if scheduler_running s \<noteq> 0 \<and> i < unat (task_count s)
           then state (tick_task (task_at s i)) else state (task_at s i)) \<and>
        delay_ticks (task_at s' i) =
          (if scheduler_running s \<noteq> 0 \<and> i < unat (task_count s)
           then delay_ticks (tick_task (task_at s i)) else delay_ticks (task_at s i))"
    by blast
  have "valid s'" using v s'(2,3,5) by (simp add: valid_def)
  then show ?thesis using s'(1,2,4,6) im i Tick by auto
qed (use ty in simp_all)

text \<open>A blocked task whose counter is zero through ticks and yields.\<close>

lemma blocked_zero_trace:
  assumes "valid s" "task_count s \<noteq> 0" "i < unat (task_count s)"
    and "state (task_at s i) = TASK_BLOCKED" "delay_ticks (task_at s i) = 0"
    and "list_all is_tick_or_yield evs"
  shows "\<exists>s'. exec e evs s = Inr s' \<and> valid s' \<and> task_count s' = task_count s \<and>
           state (task_at s' i) = TASK_BLOCKED \<and> delay_ticks (task_at s' i) = 0"
  using assms
proof (induction evs arbitrary: s)
  case Nil
  then show ?case by simp
next
  case (Cons ev evs)
  have ne: "\<not> eligible s i" using Cons.prems(4) by (simp add: eligible_def)
  have ty: "is_tick_or_yield ev" and rest: "list_all is_tick_or_yield evs"
    using Cons.prems(6) by auto
  from parked_step[OF Cons.prems(1,2,3) ne ty, of e] obtain s1 where s1:
    "step e ev s = Inr s1" "valid s1" "task_count s1 = task_count s"
    "state (task_at s1 i) = TASK_BLOCKED" "delay_ticks (task_at s1 i) = 0"
    using Cons.prems(4,5) by (auto simp: state_tick_task delay_tick_task split: if_splits)
  from Cons.IH[OF s1(2) _ _ s1(4,5) rest] s1(3) Cons.prems(2,3)
  show ?case using s1(1) by auto
qed

text \<open>A blocked task whose counter is above the number of ticks of the trace.\<close>

lemma blocked_trace:
  assumes "valid s" "task_count s \<noteq> 0" "scheduler_running s \<noteq> 0" "i < unat (task_count s)"
    and "state (task_at s i) = TASK_BLOCKED" "delay_ticks (task_at s i) = d"
    and "list_all is_tick_or_yield evs" "count_list evs Tick < unat d"
  shows "\<exists>s'. exec e evs s = Inr s' \<and> valid s' \<and> task_count s' = task_count s \<and>
           scheduler_running s' = scheduler_running s \<and>
           state (task_at s' i) = TASK_BLOCKED \<and>
           delay_ticks (task_at s' i) = d - of_nat (count_list evs Tick)"
  using assms
proof (induction evs arbitrary: s d)
  case Nil
  then show ?case by simp
next
  case (Cons ev evs)
  have ne: "\<not> eligible s i" using Cons.prems(5) by (simp add: eligible_def)
  have ty: "is_tick_or_yield ev" and rest: "list_all is_tick_or_yield evs"
    using Cons.prems(7) by auto
  from parked_step[OF Cons.prems(1,2,4) ne ty, of e] obtain s1 where s1:
    "step e ev s = Inr s1" "valid s1" "task_count s1 = task_count s"
    "scheduler_running s1 = scheduler_running s"
    "state (task_at s1 i) =
       (if ev = Tick then state (tick_task (task_at s i)) else state (task_at s i))"
    "delay_ticks (task_at s1 i) =
       (if ev = Tick then delay_ticks (tick_task (task_at s i)) else delay_ticks (task_at s i))"
    using Cons.prems(3) by auto
  show ?case
  proof (cases "ev = Tick")
    case True
    then have big: "Suc (count_list evs Tick) < unat d" using Cons.prems(8) by simp
    then have d1: "d \<noteq> 1" and d0: "d \<noteq> 0" by auto
    have ud: "unat (d - 1) = unat d - 1" using d0 by (simp add: unat_minus_one)
    have st: "state (task_at s1 i) = TASK_BLOCKED"
      using s1(5) True Cons.prems(5,6) d1 by (simp add: state_tick_task)
    have dl: "delay_ticks (task_at s1 i) = d - 1"
      using s1(6) True Cons.prems(6) d0 by (simp add: delay_tick_task)
    have lt: "count_list evs Tick < unat (d - 1)" using big ud by simp
    from Cons.IH[OF s1(2) _ _ _ st dl rest lt] s1(3,4) Cons.prems(2,3,4)
    show ?thesis using s1(1) True by auto
  next
    case False
    have st: "state (task_at s1 i) = TASK_BLOCKED"
      using s1(5) False Cons.prems(5) by simp
    have dl: "delay_ticks (task_at s1 i) = d"
      using s1(6) False Cons.prems(6) by simp
    have lt: "count_list evs Tick < unat d" using Cons.prems(8) False by simp
    from Cons.IH[OF s1(2) _ _ _ st dl rest lt] s1(3,4) Cons.prems(2,3,4)
    show ?thesis using s1(1) False by auto
  qed
qed

lemma suspended_step_only_resume:
  assumes v: "valid s" and n0: "task_count s \<noteq> 0" and i: "i < unat (task_count s)"
    and su: "state (task_at s i) = TASK_SUSPENDED"
    and st: "step e ev s = Inr s'" and el: "eligible s' i"
  shows "ev = Resume (of_nat i)"
proof -
  have ne: "\<not> eligible s i" using su by (simp add: eligible_def)
  have len: "length (tasks s) = MAX_TASKS" and nmax: "unat (task_count s) \<le> MAX_TASKS"
    using v by (auto simp: valid_def)
  have c_small: "unat (current_task s) < MAX_TASKS" using v by (rule valid_current_small)
  show ?thesis
  proof (cases ev)
    case (Add f)
    show ?thesis
    proof (cases "MAX_TASKS \<le> unat (task_count s) \<or> f = 0")
      case True
      then show ?thesis using st el ne Add by (simp add: add_fail)
    next
      case False
      then have lt: "unat (task_count s) < MAX_TASKS" and f: "f \<noteq> 0" by auto
      have "task_at (snd (scheduler_add_task e f s)) i = task_at s i"
        using add_ok(8)[OF lt f len, of i e] i by simp
      then show ?thesis using st el ne Add by (auto simp: eligible_def)
    qed
  next
    case (Suspend tid)
    show ?thesis
    proof (cases "tid < task_count s")
      case True
      then have t: "unat tid < MAX_TASKS" using nmax by (auto simp: word_less_nat_alt)
      then show ?thesis
        using True st el ne Suspend len
        by (auto simp: scheduler_suspend_task_def in_array_def eligible_def task_at_upd_task
            split: if_splits)
    next
      case False
      then show ?thesis using st el ne Suspend by (simp add: scheduler_suspend_task_def)
    qed
  next
    case (Resume tid)
    show ?thesis
    proof (cases "unat tid = i")
      case True
      then have "tid = of_nat i" by auto
      then show ?thesis using Resume by simp
    next
      case False
      show ?thesis
      proof (cases "tid < task_count s")
        case True
        then have t: "unat tid < MAX_TASKS" using nmax by (auto simp: word_less_nat_alt)
        then show ?thesis
          using True False st el ne Resume len
          by (auto simp: scheduler_resume_task_def in_array_def eligible_def task_at_upd_task
              split: if_splits)
      next
        case False
        then show ?thesis using st el ne Resume by (simp add: scheduler_resume_task_def)
      qed
    qed
  next
    case Yield
    then show ?thesis using yield_parked[OF v n0 ne] st el ne by (auto simp: eligible_def)
  next
    case (Delay k)
    show ?thesis
    proof (cases "k = 0")
      case True
      then show ?thesis using st el ne Delay by (simp add: task_delay_def)
    next
      case False
      let ?b = "upd_task (unat (current_task s)) (\<lambda>t. t\<lparr>delay_ticks := k, state := TASK_BLOCKED\<rparr>) s"
      have d: "task_delay k s = scheduler_yield ?b"
        using False c_small by (simp add: task_delay_def in_array_def)
      have neb: "\<not> eligible ?b i"
        using ne c_small len by (auto simp: eligible_def task_at_upd_task)
      from yield_parked[OF _ _ neb] v n0 st Delay d
      have "task_at s' i = task_at ?b i" by auto
      then show ?thesis using el neb by (simp add: eligible_def)
    qed
  next
    case Tick
    have "is_tick_or_yield Tick" by simp
    from parked_step[OF v n0 i ne this, of e] st Tick su
    have "state (task_at s' i) = TASK_SUSPENDED"
      by (auto simp: state_tick_task split: if_splits)
    then show ?thesis using el by (simp add: eligible_def)
  next
    case Exit
    then show ?thesis
      using st el ne c_small len
      by (auto simp: task_exit_enter_def in_array_def eligible_def task_at_upd_task
          split: if_splits)
  qed
qed

lemma resume_suspended:
  assumes v: "valid s" and i: "i < unat (task_count s)"
    and su: "state (task_at s i) = TASK_SUSPENDED"
  shows "\<exists>s'. scheduler_resume_task (of_nat i) s = Inr s' \<and>
           state (task_at s' i) = TASK_READY \<and> eligible s' i"
proof -
  have len: "length (tasks s) = MAX_TASKS" and nmax: "unat (task_count s) \<le> MAX_TASKS"
    using v by (auto simp: valid_def)
  have im: "i < MAX_TASKS" using i nmax by simp
  have u: "unat (of_nat i :: 8 word) = i" using im by (simp add: unat_of_nat_small)
  have lt: "(of_nat i :: 8 word) < task_count s" using i u by (simp add: word_less_nat_alt)
  show ?thesis
    using lt u im su len
    by (simp add: scheduler_resume_task_def in_array_def task_at_upd_task eligible_def)
qed

subsection \<open>A task that no event acts on\<close>

lemma tick_yield_left_alone:
  "list_all is_tick_or_yield evs \<Longrightarrow> left_alone e i evs s"
proof (induction evs arbitrary: s)
  case Nil
  then show ?case by simp
next
  case (Cons ev evs)
  then show ?case by (cases ev) (auto split: sum.splits)
qed

lemma parked_any_step:
  assumes v: "valid s" and n0: "task_count s \<noteq> 0" and i: "i < unat (task_count s)"
    and ne: "\<not> eligible s i" and al: "\<not> acts_on i s ev"
  shows "\<exists>s'. step e ev s = Inr s' \<and> valid s' \<and> task_count s' \<noteq> 0 \<and>
           i < unat (task_count s') \<and>
           state (task_at s' i) =
             (if ev = Tick \<and> scheduler_running s \<noteq> 0 then state (tick_task (task_at s i))
              else if ev = Suspend (of_nat i) then TASK_SUSPENDED
              else state (task_at s i)) \<and>
           delay_ticks (task_at s' i) =
             (if ev = Tick \<and> scheduler_running s \<noteq> 0
              then delay_ticks (tick_task (task_at s i)) else delay_ticks (task_at s i))"
proof -
  have len: "length (tasks s) = MAX_TASKS" and nmax: "unat (task_count s) \<le> MAX_TASKS"
    using v by (auto simp: valid_def)
  have c_small: "unat (current_task s) < MAX_TASKS" using v by (rule valid_current_small)
  have im: "i < MAX_TASKS" using i nmax by simp
  have ui: "unat (of_nat i :: 8 word) = i" using im by (simp add: unat_of_nat_small)
  show ?thesis
  proof (cases ev)
    case (Add f)
    show ?thesis
    proof (cases "MAX_TASKS \<le> unat (task_count s) \<or> f = 0")
      case True
      then show ?thesis using v n0 i Add by (simp add: add_fail)
    next
      case False
      then have lt: "unat (task_count s) < MAX_TASKS" and f: "f \<noteq> 0" by auto
      note ok = add_ok[OF lt f len, where e = e]
      have "valid (snd (scheduler_add_task e f s))"
        using v ok(3,4,9) lt by (auto simp: valid_def)
      moreover have "task_count (snd (scheduler_add_task e f s)) \<noteq> 0"
        using ok(3) by (metis Zero_not_Suc unat_0)
      moreover have "task_at (snd (scheduler_add_task e f s)) i = task_at s i"
        using ok(8)[of i] i by simp
      ultimately show ?thesis using Add ok(3) i by simp
    qed
  next
    case (Suspend tid)
    show ?thesis
    proof (cases "tid < task_count s")
      case True
      then have t: "unat tid < MAX_TASKS" using nmax by (auto simp: word_less_nat_alt)
      have eq: "tid = of_nat i \<longleftrightarrow> unat tid = i" using ui by auto
      show ?thesis
        using True t v n0 i len Suspend eq
        by (auto simp: scheduler_suspend_task_def in_array_def task_at_upd_task)
    next
      case False
      then have "unat tid \<noteq> i" using i by (auto simp: word_less_nat_alt)
      then have "tid \<noteq> of_nat i" using ui by auto
      then show ?thesis using False v n0 i Suspend by (simp add: scheduler_suspend_task_def)
    qed
  next
    case (Resume tid)
    then have ni: "unat tid \<noteq> i" using al by simp
    show ?thesis
    proof (cases "tid < task_count s")
      case True
      then have t: "unat tid < MAX_TASKS" using nmax by (auto simp: word_less_nat_alt)
      show ?thesis
        using True t v n0 i len Resume ni
        by (auto simp: scheduler_resume_task_def in_array_def task_at_upd_task)
    next
      case False
      then show ?thesis using v n0 i Resume by (simp add: scheduler_resume_task_def)
    qed
  next
    case Yield
    then show ?thesis using yield_parked[OF v n0 ne] n0 i by auto
  next
    case (Delay k)
    show ?thesis
    proof (cases "k = 0")
      case True
      then show ?thesis using v n0 i Delay by (simp add: task_delay_def)
    next
      case False
      then have ci: "unat (current_task s) \<noteq> i" using al Delay by simp
      let ?b = "upd_task (unat (current_task s)) (\<lambda>t. t\<lparr>delay_ticks := k, state := TASK_BLOCKED\<rparr>) s"
      have d: "task_delay k s = scheduler_yield ?b"
        using False c_small by (simp add: task_delay_def in_array_def)
      have same: "task_at ?b i = task_at s i"
        using ci c_small len by (simp add: task_at_upd_task)
      then have neb: "\<not> eligible ?b i" using ne by (simp add: eligible_def)
      from yield_parked[OF _ _ neb] v n0 obtain s' where
        "scheduler_yield ?b = Inr s'" "valid s'" "task_count s' = task_count s"
        "task_at s' i = task_at ?b i" by auto
      then show ?thesis using d same Delay n0 i by simp
    qed
  next
    case Tick
    have "is_tick_or_yield Tick" by simp
    from parked_step[OF v n0 i ne this, of e] Tick n0 i show ?thesis by auto
  next
    case Exit
    then have ci: "unat (current_task s) \<noteq> i" using al by simp
    show ?thesis
      using Exit ci c_small len v n0 i
      by (simp add: task_exit_enter_def in_array_def task_at_upd_task)
  qed
qed

lemma suspended_left_alone:
  assumes "valid s" "task_count s \<noteq> 0" "i < unat (task_count s)"
    and "state (task_at s i) = TASK_SUSPENDED" and "left_alone e i evs s"
  shows "\<exists>s'. exec e evs s = Inr s' \<and> valid s' \<and> task_count s' \<noteq> 0 \<and>
           state (task_at s' i) = TASK_SUSPENDED"
  using assms
proof (induction evs arbitrary: s)
  case Nil
  then show ?case by simp
next
  case (Cons ev evs)
  have ne: "\<not> eligible s i" using Cons.prems(4) by (simp add: eligible_def)
  have al: "\<not> acts_on i s ev" using Cons.prems(5) by simp
  from parked_any_step[OF Cons.prems(1,2,3) ne al, of e] obtain s1 where s1:
    "step e ev s = Inr s1" "valid s1" "task_count s1 \<noteq> 0" "i < unat (task_count s1)"
    "state (task_at s1 i) = TASK_SUSPENDED"
    using Cons.prems(4) by (auto simp: state_tick_task split: if_splits)
  have rest: "left_alone e i evs s1" using Cons.prems(5) s1(1) by simp
  from Cons.IH[OF s1(2,3,4,5) rest] show ?case using s1(1) by auto
qed

lemma sunk_left_alone:
  assumes "valid s" "task_count s \<noteq> 0" "i < unat (task_count s)"
    and "\<not> eligible s i" "delay_ticks (task_at s i) = 0" and "left_alone e i evs s"
  shows "\<exists>s'. exec e evs s = Inr s' \<and> valid s' \<and> task_count s' \<noteq> 0 \<and>
           \<not> eligible s' i \<and> delay_ticks (task_at s' i) = 0"
  using assms
proof (induction evs arbitrary: s)
  case Nil
  then show ?case by simp
next
  case (Cons ev evs)
  have al: "\<not> acts_on i s ev" using Cons.prems(6) by simp
  from parked_any_step[OF Cons.prems(1,2,3,4) al, of e] obtain s1 where s1:
    "step e ev s = Inr s1" "valid s1" "task_count s1 \<noteq> 0" "i < unat (task_count s1)"
    "\<not> eligible s1 i" "delay_ticks (task_at s1 i) = 0"
    using Cons.prems(4,5)
    by (auto simp: state_tick_task delay_tick_task eligible_def split: if_splits)
  have rest: "left_alone e i evs s1" using Cons.prems(6) s1(1) by simp
  from Cons.IH[OF s1(2,3,4,5,6) rest] show ?case using s1(1) by auto
qed

section \<open>Delay (C4)\<close>

text \<open>
  C4. In a started scheduler, after the current task calls \<^verbatim>\<open>task_delay(n)\<close> with \<open>n > 0\<close> its
  state is Blocked and its \<open>delay_ticks\<close> is \<open>n\<close>. Through every sequence of ticks and yields
  that holds fewer than \<open>n\<close> ticks it stays Blocked, so the dispatcher cannot select it, and
  its counter is \<open>n\<close> less the ticks so far. The \<open>n\<close>-th tick brings the counter to zero and
  makes the task Ready, hence eligible: not before, and not a tick later.
\<close>

theorem delay_blocks_for_n_ticks:
  assumes v: "valid s" and n0: "task_count s \<noteq> 0" and run: "scheduler_running s \<noteq> 0"
    and n: "n \<noteq> 0"
  shows "\<exists>s1. task_delay n s = Inr s1 \<and>
           state (task_at s1 (unat (current_task s))) = TASK_BLOCKED \<and>
           delay_ticks (task_at s1 (unat (current_task s))) = n \<and>
           (\<forall>evs. list_all is_tick_or_yield evs \<and> count_list evs Tick < unat n \<longrightarrow>
              (\<exists>s2. exec e evs s1 = Inr s2 \<and>
                    state (task_at s2 (unat (current_task s))) = TASK_BLOCKED \<and>
                    \<not> eligible s2 (unat (current_task s)) \<and>
                    delay_ticks (task_at s2 (unat (current_task s))) =
                      n - of_nat (count_list evs Tick))) \<and>
           (\<forall>evs. list_all is_tick_or_yield evs \<and> count_list evs Tick = unat n - 1 \<longrightarrow>
              (\<exists>s3. exec e (evs @ [Tick]) s1 = Inr s3 \<and>
                    state (task_at s3 (unat (current_task s))) = TASK_READY \<and>
                    eligible s3 (unat (current_task s)) \<and>
                    delay_ticks (task_at s3 (unat (current_task s))) = 0))"
proof -
  let ?c = "unat (current_task s)"
  let ?b = "upd_task ?c (\<lambda>t. t\<lparr>delay_ticks := n, state := TASK_BLOCKED\<rparr>) s"
  have c_small: "?c < MAX_TASKS" using v by (rule valid_current_small)
  have c_lt: "?c < unat (task_count s)" using v n0 by (rule valid_current_lt)
  have len: "length (tasks s) = MAX_TASKS" using v by (simp add: valid_def)
  have d: "task_delay n s = scheduler_yield ?b"
    using n c_small by (simp add: task_delay_def in_array_def)
  have vb: "valid ?b" using v by simp
  have bst: "state (task_at ?b ?c) = TASK_BLOCKED" "delay_ticks (task_at ?b ?c) = n"
    using c_small len by (simp_all add: task_at_upd_task)
  then have neb: "\<not> eligible ?b ?c" by (simp add: eligible_def)
  from yield_parked[OF vb _ neb] n0 obtain s1 where s1:
    "scheduler_yield ?b = Inr s1" "valid s1" "task_count s1 = task_count s"
    "scheduler_running s1 = scheduler_running s" "task_at s1 ?c = task_at ?b ?c"
    by auto
  have st1: "state (task_at s1 ?c) = TASK_BLOCKED" "delay_ticks (task_at s1 ?c) = n"
    using s1(5) bst by simp_all
  have n1: "task_count s1 \<noteq> 0" "scheduler_running s1 \<noteq> 0" "?c < unat (task_count s1)"
    using s1(3,4) n0 run c_lt by simp_all
  have before: "\<exists>s2. exec e evs s1 = Inr s2 \<and> valid s2 \<and> task_count s2 = task_count s1 \<and>
                 scheduler_running s2 = scheduler_running s1 \<and>
                 state (task_at s2 ?c) = TASK_BLOCKED \<and>
                 delay_ticks (task_at s2 ?c) = n - of_nat (count_list evs Tick)"
    if "list_all is_tick_or_yield evs" "count_list evs Tick < unat n" for evs
    using blocked_trace[OF s1(2) n1 st1 that] .
  have part1: "\<forall>evs. list_all is_tick_or_yield evs \<and> count_list evs Tick < unat n \<longrightarrow>
              (\<exists>s2. exec e evs s1 = Inr s2 \<and>
                    state (task_at s2 ?c) = TASK_BLOCKED \<and> \<not> eligible s2 ?c \<and>
                    delay_ticks (task_at s2 ?c) = n - of_nat (count_list evs Tick))"
    using before by (fastforce simp: eligible_def)
  have part2: "\<exists>s3. exec e (evs @ [Tick]) s1 = Inr s3 \<and>
                    state (task_at s3 ?c) = TASK_READY \<and> eligible s3 ?c \<and>
                    delay_ticks (task_at s3 ?c) = 0"
    if ty: "list_all is_tick_or_yield evs" and k: "count_list evs Tick = unat n - 1" for evs
  proof -
    have npos: "0 < unat n" using n by (simp add: unat_gt_0)
    then have lt: "count_list evs Tick < unat n" using k by simp
    from before[OF ty lt] obtain s2 where s2:
      "exec e evs s1 = Inr s2" "valid s2" "task_count s2 = task_count s1"
      "scheduler_running s2 = scheduler_running s1" "state (task_at s2 ?c) = TASK_BLOCKED"
      "delay_ticks (task_at s2 ?c) = n - of_nat (count_list evs Tick)" by blast
    have "(of_nat (unat n - 1) :: 16 word) = n - 1"
      using npos by (simp add: of_nat_diff)
    then have one: "delay_ticks (task_at s2 ?c) = 1" using s2(6) k by simp
    have ne2: "\<not> eligible s2 ?c" using s2(5) by (simp add: eligible_def)
    from parked_step[OF s2(2) _ _ ne2, of Tick e] n1 s2(3,4) obtain s3 where s3:
      "step e Tick s2 = Inr s3"
      "state (task_at s3 ?c) = state (tick_task (task_at s2 ?c))"
      "delay_ticks (task_at s3 ?c) = delay_ticks (tick_task (task_at s2 ?c))"
      by auto
    have "state (task_at s3 ?c) = TASK_READY" "delay_ticks (task_at s3 ?c) = 0"
      using s3(2,3) one s2(5) by (simp_all add: state_tick_task delay_tick_task)
    moreover have "exec e (evs @ [Tick]) s1 = Inr s3"
      using s2(1) s3(1) by (simp add: exec_append)
    ultimately show ?thesis by (auto simp: eligible_def)
  qed
  show ?thesis
    using d s1(1) st1 part1 part2 by auto
qed

theorem delay_blocks_for_n_ticks_witness:
  "valid two_started \<and> task_count two_started \<noteq> 0 \<and> scheduler_running two_started \<noteq> 0 \<and>
   (3 :: 16 word) \<noteq> 0 \<and>
   (\<exists>s1. task_delay 3 two_started = Inr s1 \<and>
      state (task_at s1 0) = TASK_BLOCKED \<and> delay_ticks (task_at s1 0) = 3 \<and>
      (\<exists>s2. exec 0x0100 [Tick, Yield, Tick] s1 = Inr s2 \<and>
             state (task_at s2 0) = TASK_BLOCKED \<and> delay_ticks (task_at s2 0) = 1) \<and>
      (\<exists>s3. exec 0x0100 ([Tick, Yield, Tick] @ [Tick]) s1 = Inr s3 \<and>
             state (task_at s3 0) = TASK_READY \<and> delay_ticks (task_at s3 0) = 0))"
proof -
  have v: "valid two_started" by code_simp
  have n0: "task_count two_started \<noteq> 0" by code_simp
  have run: "scheduler_running two_started \<noteq> 0" by code_simp
  have n: "(3 :: 16 word) \<noteq> 0" by simp
  have c: "unat (current_task two_started) = 0" by code_simp
  have ty: "list_all is_tick_or_yield [Tick, Yield, Tick]" by simp
  have k1: "count_list [Tick, Yield, Tick] Tick < unat (3 :: 16 word)" by simp
  have k2: "count_list [Tick, Yield, Tick] Tick = unat (3 :: 16 word) - 1" by simp
  have k3: "(3 :: 16 word) - of_nat (count_list [Tick, Yield, Tick] Tick) = 1" by simp
  from delay_blocks_for_n_ticks[OF v n0 run n, of "0x0100"] obtain s1 where s1:
    "task_delay 3 two_started = Inr s1"
    "state (task_at s1 0) = TASK_BLOCKED" "delay_ticks (task_at s1 0) = 3"
    "\<forall>evs. list_all is_tick_or_yield evs \<and> count_list evs Tick < unat (3 :: 16 word) \<longrightarrow>
       (\<exists>s2. exec 0x0100 evs s1 = Inr s2 \<and> state (task_at s2 0) = TASK_BLOCKED \<and>
             \<not> eligible s2 0 \<and>
             delay_ticks (task_at s2 0) = 3 - of_nat (count_list evs Tick))"
    "\<forall>evs. list_all is_tick_or_yield evs \<and> count_list evs Tick = unat (3 :: 16 word) - 1 \<longrightarrow>
       (\<exists>s3. exec 0x0100 (evs @ [Tick]) s1 = Inr s3 \<and> state (task_at s3 0) = TASK_READY \<and>
             eligible s3 0 \<and> delay_ticks (task_at s3 0) = 0)"
    unfolding c by blast
  from s1(4) ty k1 k3 have a: "\<exists>s2. exec 0x0100 [Tick, Yield, Tick] s1 = Inr s2 \<and>
             state (task_at s2 0) = TASK_BLOCKED \<and> delay_ticks (task_at s2 0) = 1"
    by metis
  from s1(5) ty k2 have b: "\<exists>s3. exec 0x0100 ([Tick, Yield, Tick] @ [Tick]) s1 = Inr s3 \<and>
             state (task_at s3 0) = TASK_READY \<and> delay_ticks (task_at s3 0) = 0"
    by blast
  show ?thesis using v n0 run n s1(1,2,3) a b by blast
qed

section \<open>Suspension and delay expiry (C5)\<close>

text \<open>
  C5, as amended. For a registered task in state Suspended: the tick handler decrements
  its delay counter when that is positive (and the scheduler runs) but leaves its state
  Suspended, also when the counter reaches zero. Through every sequence of add, suspend,
  resume, yield, delay, tick and task exit in which no resume names the task and the task
  itself neither delays nor exits (every sequence of ticks and yields is one of these),
  the task stays Suspended and not eligible, and no yield switches to it. A resume call
  for it sets it to Ready, which makes it eligible, and no other single operation of those
  seven takes it from Suspended to an eligible state.
\<close>

theorem suspended_stays_suspended:
  assumes v: "valid s" and n0: "task_count s \<noteq> 0" and i: "i < unat (task_count s)"
    and su: "state (task_at s i) = TASK_SUSPENDED"
  shows "(\<exists>s'. timer0_compa_isr s = Inr s' \<and> state (task_at s' i) = TASK_SUSPENDED \<and>
            delay_ticks (task_at s' i) =
              (if scheduler_running s \<noteq> 0 \<and> 0 < delay_ticks (task_at s i)
               then delay_ticks (task_at s i) - 1 else delay_ticks (task_at s i))) \<and>
         (\<forall>evs. left_alone e i evs s \<longrightarrow>
            (\<exists>s'. exec e evs s = Inr s' \<and> state (task_at s' i) = TASK_SUSPENDED \<and>
                  \<not> eligible s' i \<and>
                  (\<exists>s''. scheduler_yield s' = Inr s'' \<and>
                         state (task_at s'' i) = TASK_SUSPENDED \<and>
                         (current_task s'' \<noteq> current_task s' \<longrightarrow> unat (current_task s'') \<noteq> i)))) \<and>
         (\<forall>evs. list_all is_tick_or_yield evs \<longrightarrow> left_alone e i evs s) \<and>
         (\<exists>s'. scheduler_resume_task (of_nat i) s = Inr s' \<and>
               state (task_at s' i) = TASK_READY \<and> eligible s' i) \<and>
         (\<forall>ev s'. step e ev s = Inr s' \<and> eligible s' i \<longrightarrow> ev = Resume (of_nat i))"
proof (intro conjI)
  have ne: "\<not> eligible s i" using su by (simp add: eligible_def)
  have "is_tick_or_yield Tick" by simp
  from parked_step[OF v n0 i ne this, of e] su
  show "\<exists>s'. timer0_compa_isr s = Inr s' \<and> state (task_at s' i) = TASK_SUSPENDED \<and>
            delay_ticks (task_at s' i) =
              (if scheduler_running s \<noteq> 0 \<and> 0 < delay_ticks (task_at s i)
               then delay_ticks (task_at s i) - 1 else delay_ticks (task_at s i))"
    by (auto simp: state_tick_task delay_tick_task word_greater_zero_iff)
next
  show "\<forall>evs. left_alone e i evs s \<longrightarrow>
            (\<exists>s'. exec e evs s = Inr s' \<and> state (task_at s' i) = TASK_SUSPENDED \<and>
                  \<not> eligible s' i \<and>
                  (\<exists>s''. scheduler_yield s' = Inr s'' \<and>
                         state (task_at s'' i) = TASK_SUSPENDED \<and>
                         (current_task s'' \<noteq> current_task s' \<longrightarrow> unat (current_task s'') \<noteq> i)))"
  proof (intro allI impI)
    fix evs assume la: "left_alone e i evs s"
    from suspended_left_alone[OF v n0 i su la] obtain s' where s':
      "exec e evs s = Inr s'" "valid s'" "task_count s' \<noteq> 0"
      "state (task_at s' i) = TASK_SUSPENDED" by blast
    have ne': "\<not> eligible s' i" using s'(4) by (simp add: eligible_def)
    from yield_parked[OF s'(2,3) ne'] obtain s'' where
      "scheduler_yield s' = Inr s''" "task_at s'' i = task_at s' i"
      "current_task s'' \<noteq> current_task s' \<longrightarrow> unat (current_task s'') \<noteq> i"
      by auto
    then show "\<exists>s'. exec e evs s = Inr s' \<and> state (task_at s' i) = TASK_SUSPENDED \<and>
                  \<not> eligible s' i \<and>
                  (\<exists>s''. scheduler_yield s' = Inr s'' \<and>
                         state (task_at s'' i) = TASK_SUSPENDED \<and>
                         (current_task s'' \<noteq> current_task s' \<longrightarrow> unat (current_task s'') \<noteq> i))"
      using s'(1,4) ne' by auto
  qed
next
  show "\<forall>evs. list_all is_tick_or_yield evs \<longrightarrow> left_alone e i evs s"
    by (simp add: tick_yield_left_alone)
next
  show "\<exists>s'. scheduler_resume_task (of_nat i) s = Inr s' \<and>
               state (task_at s' i) = TASK_READY \<and> eligible s' i"
    using resume_suspended[OF v i su] .
next
  show "\<forall>ev s'. step e ev s = Inr s' \<and> eligible s' i \<longrightarrow> ev = Resume (of_nat i)"
    using suspended_step_only_resume[OF v n0 i su] by blast
qed

theorem suspended_stays_suspended_witness:
  "valid suspended_demo \<and> task_count suspended_demo \<noteq> 0 \<and>
   0 < unat (task_count suspended_demo) \<and>
   state (task_at suspended_demo 0) = TASK_SUSPENDED \<and>
   left_alone 0x0100 0
     [Tick, Add 0x0400, Yield, Delay 2, Suspend 0, Resume 1, Exit, Tick, Tick, Tick, Yield]
     suspended_demo \<and>
   (\<exists>s'. timer0_compa_isr suspended_demo = Inr s' \<and> state (task_at s' 0) = TASK_SUSPENDED \<and>
         delay_ticks (task_at s' 0) = 2) \<and>
   (\<exists>s'. exec 0x0100
           [Tick, Add 0x0400, Yield, Delay 2, Suspend 0, Resume 1, Exit, Tick, Tick, Tick, Yield]
           suspended_demo = Inr s' \<and>
         state (task_at s' 0) = TASK_SUSPENDED \<and> \<not> eligible s' 0) \<and>
   (\<exists>s'. scheduler_resume_task 0 suspended_demo = Inr s' \<and> state (task_at s' 0) = TASK_READY)"
proof -
  have v: "valid suspended_demo" by code_simp
  have n0: "task_count suspended_demo \<noteq> 0" by code_simp
  have i: "0 < unat (task_count suspended_demo)" by code_simp
  have su: "state (task_at suspended_demo 0) = TASK_SUSPENDED" by code_simp
  have r: "scheduler_running suspended_demo \<noteq> 0" by code_simp
  have d: "delay_ticks (task_at suspended_demo 0) = 3" by code_simp
  have la: "left_alone 0x0100 0
     [Tick, Add 0x0400, Yield, Delay 2, Suspend 0, Resume 1, Exit, Tick, Tick, Tick, Yield]
     suspended_demo" by code_simp
  note t = suspended_stays_suspended[OF v n0 i su, of "0x0100"]
  from t have a: "\<exists>s'. timer0_compa_isr suspended_demo = Inr s' \<and>
      state (task_at s' 0) = TASK_SUSPENDED \<and> delay_ticks (task_at s' 0) = 2"
    using r d by simp
  from t la have b: "\<exists>s'. exec 0x0100
           [Tick, Add 0x0400, Yield, Delay 2, Suspend 0, Resume 1, Exit, Tick, Tick, Tick, Yield]
           suspended_demo = Inr s' \<and>
         state (task_at s' 0) = TASK_SUSPENDED \<and> \<not> eligible s' 0"
    by blast
  from t have c: "\<exists>s'. scheduler_resume_task 0 suspended_demo = Inr s' \<and>
      state (task_at s' 0) = TASK_READY"
    by auto
  show ?thesis using v n0 i su la a b c by blast
qed

text \<open>
  Without that condition the property fails. On the started scheduler with two tasks,
  task 0 is suspended, then calls \<^verbatim>\<open>task_delay(2)\<close>, which stores Blocked over Suspended; two
  ticks make it Ready and the next yield makes it Running, with no resume at all. And
  \<^verbatim>\<open>scheduler_start\<close> sets task 0 Running also when it was suspended before the start.
\<close>

theorem suspended_dispatched_counterexample:
  "map_sum id (\<lambda>s. state (task_at s 0)) (exec 0x0100 [Suspend 0] two_started)
     = Inr TASK_SUSPENDED \<and>
   map_sum id (\<lambda>s. (state (task_at s 0), current_task s))
     (exec 0x0100 [Suspend 0, Delay 2, Tick, Tick, Yield] two_started)
     = Inr (TASK_RUNNING, 0) \<and>
   map_option (\<lambda>s. (state (task_at s 0), current_task s))
     (case exec 0x0100 [Add 0x0200, Suspend 0] scheduler_init of
        Inl e \<Rightarrow> None | Inr s \<Rightarrow> scheduler_start s) = Some (TASK_RUNNING, 0)"
  by code_simp

section \<open>A task whose function returned (C6)\<close>

text \<open>
  C6, as amended. When the function of the current task returns, \<^verbatim>\<open>task_exit\<close> sets its state
  to Blocked and then yields for ever. If the delay counter of that task is zero at that
  moment, then through every sequence of ticks and yields that follows the task stays
  Blocked with its counter at zero; and through every sequence of add, suspend, resume,
  yield, delay, tick and task exit in which no resume names the task and the task itself
  does not delay or exit again, it is never eligible, its counter stays zero, and no
  yield switches to it.
\<close>

theorem exited_task_is_never_selected:
  assumes v: "valid s" and n0: "task_count s \<noteq> 0"
    and dz: "delay_ticks (task_at s (unat (current_task s))) = 0"
  shows "\<exists>s1. task_exit_enter s = Inr s1 \<and>
           state (task_at s1 (unat (current_task s))) = TASK_BLOCKED \<and>
           (\<forall>evs. list_all is_tick_or_yield evs \<longrightarrow>
              (\<exists>s2. exec e evs s1 = Inr s2 \<and>
                    state (task_at s2 (unat (current_task s))) = TASK_BLOCKED \<and>
                    delay_ticks (task_at s2 (unat (current_task s))) = 0 \<and>
                    \<not> eligible s2 (unat (current_task s)) \<and>
                    (\<exists>s3. scheduler_yield s2 = Inr s3 \<and>
                          state (task_at s3 (unat (current_task s))) = TASK_BLOCKED \<and>
                          (current_task s3 \<noteq> current_task s2 \<longrightarrow>
                             current_task s3 \<noteq> current_task s)))) \<and>
           (\<forall>evs. left_alone e (unat (current_task s)) evs s1 \<longrightarrow>
              (\<exists>s2. exec e evs s1 = Inr s2 \<and>
                    \<not> eligible s2 (unat (current_task s)) \<and>
                    delay_ticks (task_at s2 (unat (current_task s))) = 0 \<and>
                    (\<exists>s3. scheduler_yield s2 = Inr s3 \<and>
                          \<not> eligible s3 (unat (current_task s)) \<and>
                          (current_task s3 \<noteq> current_task s2 \<longrightarrow>
                             current_task s3 \<noteq> current_task s))))"
proof -
  let ?c = "unat (current_task s)"
  let ?s1 = "upd_task ?c (\<lambda>t. t\<lparr>state := TASK_BLOCKED\<rparr>) s"
  have c_small: "?c < MAX_TASKS" using v by (rule valid_current_small)
  have c_lt: "?c < unat (task_count s)" using v n0 by (rule valid_current_lt)
  have len: "length (tasks s) = MAX_TASKS" using v by (simp add: valid_def)
  have ex: "task_exit_enter s = Inr ?s1"
    using c_small by (simp add: task_exit_enter_def in_array_def)
  have v1: "valid ?s1" using v by simp
  have st1: "state (task_at ?s1 ?c) = TASK_BLOCKED" "delay_ticks (task_at ?s1 ?c) = 0"
    using c_small len dz by (simp_all add: task_at_upd_task)
  have ne1: "\<not> eligible ?s1 ?c" using st1(1) by (simp add: eligible_def)
  have n1: "task_count ?s1 \<noteq> 0" "?c < unat (task_count ?s1)" using n0 c_lt by simp_all
  have tr: "\<exists>s2. exec e evs ?s1 = Inr s2 \<and>
                    state (task_at s2 ?c) = TASK_BLOCKED \<and>
                    delay_ticks (task_at s2 ?c) = 0 \<and> \<not> eligible s2 ?c \<and>
                    (\<exists>s3. scheduler_yield s2 = Inr s3 \<and>
                          state (task_at s3 ?c) = TASK_BLOCKED \<and>
                          (current_task s3 \<noteq> current_task s2 \<longrightarrow>
                             current_task s3 \<noteq> current_task s))"
    if ty: "list_all is_tick_or_yield evs" for evs
  proof -
    from blocked_zero_trace[OF v1 n1 st1 ty, of e] obtain s2 where s2:
      "exec e evs ?s1 = Inr s2" "valid s2" "task_count s2 = task_count ?s1"
      "state (task_at s2 ?c) = TASK_BLOCKED" "delay_ticks (task_at s2 ?c) = 0"
      by auto
    have ne2: "\<not> eligible s2 ?c" using s2(4) by (simp add: eligible_def)
    from yield_parked[OF s2(2) _ ne2] n1(1) s2(3) obtain s3 where
      "scheduler_yield s2 = Inr s3" "task_at s3 ?c = task_at s2 ?c"
      "current_task s3 \<noteq> current_task s2 \<longrightarrow> unat (current_task s3) \<noteq> ?c"
      by auto
    then show ?thesis using s2(1,4,5) ne2 by auto
  qed
  have tr2: "\<exists>s2. exec e evs ?s1 = Inr s2 \<and> \<not> eligible s2 ?c \<and>
                    delay_ticks (task_at s2 ?c) = 0 \<and>
                    (\<exists>s3. scheduler_yield s2 = Inr s3 \<and> \<not> eligible s3 ?c \<and>
                          (current_task s3 \<noteq> current_task s2 \<longrightarrow>
                             current_task s3 \<noteq> current_task s))"
    if la: "left_alone e ?c evs ?s1" for evs
  proof -
    from sunk_left_alone[OF v1 n1 ne1 st1(2) la] obtain s2 where s2:
      "exec e evs ?s1 = Inr s2" "valid s2" "task_count s2 \<noteq> 0"
      "\<not> eligible s2 ?c" "delay_ticks (task_at s2 ?c) = 0"
      by auto
    from yield_parked[OF s2(2,3,4)] obtain s3 where
      "scheduler_yield s2 = Inr s3" "task_at s3 ?c = task_at s2 ?c"
      "current_task s3 \<noteq> current_task s2 \<longrightarrow> unat (current_task s3) \<noteq> ?c"
      by auto
    then show ?thesis using s2(1,4,5) by (auto simp: eligible_def)
  qed
  show ?thesis
    using ex st1(1) tr tr2 by auto
qed

theorem exited_task_is_never_selected_witness:
  "valid two_started \<and> task_count two_started \<noteq> 0 \<and>
   delay_ticks (task_at two_started (unat (current_task two_started))) = 0 \<and>
   task_exit_enter two_started = Inr two_exited \<and>
   state (task_at two_exited 0) = TASK_BLOCKED \<and>
   left_alone 0x0100 0 [Yield, Tick, Add 0x0400, Delay 2, Tick, Tick, Suspend 1, Yield, Exit, Tick]
     two_exited \<and>
   (\<exists>s2. exec 0x0100 [Yield, Tick, Tick, Yield, Tick] two_exited = Inr s2 \<and>
         state (task_at s2 0) = TASK_BLOCKED \<and> \<not> eligible s2 0) \<and>
   (\<exists>s2. exec 0x0100 [Yield, Tick, Add 0x0400, Delay 2, Tick, Tick, Suspend 1, Yield, Exit, Tick]
           two_exited = Inr s2 \<and> \<not> eligible s2 0)"
proof -
  have v: "valid two_started" by code_simp
  have n0: "task_count two_started \<noteq> 0" by code_simp
  have dz: "delay_ticks (task_at two_started (unat (current_task two_started))) = 0" by code_simp
  have c: "unat (current_task two_started) = 0" by code_simp
  have ty: "list_all is_tick_or_yield [Yield, Tick, Tick, Yield, Tick]" by simp
  have la: "left_alone 0x0100 0
     [Yield, Tick, Add 0x0400, Delay 2, Tick, Tick, Suspend 1, Yield, Exit, Tick] two_exited"
    by code_simp
  from exited_task_is_never_selected[OF v n0 dz, of "0x0100"] obtain s1 where s1:
    "task_exit_enter two_started = Inr s1" "state (task_at s1 0) = TASK_BLOCKED"
    "\<forall>evs. list_all is_tick_or_yield evs \<longrightarrow>
       (\<exists>s2. exec 0x0100 evs s1 = Inr s2 \<and> state (task_at s2 0) = TASK_BLOCKED \<and>
             delay_ticks (task_at s2 0) = 0 \<and> \<not> eligible s2 0 \<and>
             (\<exists>s3. scheduler_yield s2 = Inr s3 \<and> state (task_at s3 0) = TASK_BLOCKED \<and>
                   (current_task s3 \<noteq> current_task s2 \<longrightarrow>
                      current_task s3 \<noteq> current_task two_started)))"
    "\<forall>evs. left_alone 0x0100 0 evs s1 \<longrightarrow>
       (\<exists>s2. exec 0x0100 evs s1 = Inr s2 \<and> \<not> eligible s2 0 \<and>
             delay_ticks (task_at s2 0) = 0 \<and>
             (\<exists>s3. scheduler_yield s2 = Inr s3 \<and> \<not> eligible s3 0 \<and>
                   (current_task s3 \<noteq> current_task s2 \<longrightarrow>
                      current_task s3 \<noteq> current_task two_started)))"
    unfolding c by blast
  have eq: "two_exited = s1" using s1(1) by (simp add: two_exited_def)
  from s1(3) ty have a: "\<exists>s2. exec 0x0100 [Yield, Tick, Tick, Yield, Tick] two_exited = Inr s2 \<and>
            state (task_at s2 0) = TASK_BLOCKED \<and> \<not> eligible s2 0"
    unfolding eq by blast
  from s1(4) la have b: "\<exists>s2. exec 0x0100
      [Yield, Tick, Add 0x0400, Delay 2, Tick, Tick, Suspend 1, Yield, Exit, Tick]
           two_exited = Inr s2 \<and> \<not> eligible s2 0"
    unfolding eq by blast
  show ?thesis using v n0 dz s1(1,2) la a b unfolding eq by blast
qed

text \<open>
  The counter need not be zero: \<^verbatim>\<open>task_exit\<close> does not clear it, and \<^verbatim>\<open>task_delay\<close> returns to
  its caller. On the started scheduler with one task, the task delays for five ticks and
  then exits: it is Blocked with counter 5, and the fifth tick makes it Ready again. With
  two tasks the same exited task is afterwards selected by a yield and Running.
\<close>

theorem exited_task_ready_again_counterexample:
  "map_sum id (\<lambda>s. (state (task_at s 0), delay_ticks (task_at s 0)))
     (exec 0x0100 [Delay 5, Exit] one_started) = Inr (TASK_BLOCKED, 5) \<and>
   map_sum id (\<lambda>s. state (task_at s 0))
     (exec 0x0100 [Delay 5, Exit, Tick, Tick, Tick, Tick, Tick] one_started) = Inr TASK_READY \<and>
   map_sum id (\<lambda>s. (state (task_at s 0), current_task s))
     (exec 0x0100 [Suspend 1, Delay 5, Exit, Resume 1, Yield, Tick, Tick, Tick, Tick, Tick, Yield]
        two_started) = Inr (TASK_RUNNING, 0)"
  by code_simp

section \<open>Round robin (C2)\<close>

lemma map_shift_upt: "map f [k + a..<k + b] = map (\<lambda>e. f (k + e)) [a..<b]"
  by (rule nth_equalityI) (auto simp: add.assoc)

lemma upt_split: "a \<le> b \<Longrightarrow> b \<le> c \<Longrightarrow> [a..<c] = [a..<b] @ [b..<c]"
  using upt_add_eq_append[of a b "c - b"] by simp

lemma probes_eq:
  assumes "c < n"
  shows "map (\<lambda>d. (c + d) mod n) [1..<Suc n] = [c + 1..<n] @ [0..<c + 1]"
proof (rule nth_equalityI)
  show "length (map (\<lambda>d. (c + d) mod n) [1..<Suc n]) = length ([c + 1..<n] @ [0..<c + 1])"
    using assms by (simp del: upt_Suc)
next
  fix i assume "i < length (map (\<lambda>d. (c + d) mod n) [1..<Suc n])"
  then have i: "i < n" by (simp del: upt_Suc)
  show "map (\<lambda>d. (c + d) mod n) [1..<Suc n] ! i = ([c + 1..<n] @ [0..<c + 1]) ! i"
  proof (cases "i < n - (c + 1)")
    case True
    then have "(c + (1 + i)) mod n = c + 1 + i" by simp
    then show ?thesis using True i by (simp add: nth_append del: upt_Suc)
  next
    case False
    then have ge: "n \<le> c + (1 + i)" by simp
    have "(c + (1 + i)) mod n = c + (1 + i) - n"
      using ge i assms by (simp add: mod_if)
    then show ?thesis using False i assms by (simp add: nth_append del: upt_Suc)
  qed
qed

lemma order_probes:
  assumes "valid s" "task_count s \<noteq> 0"
  shows "round_robin_order s =
           filter (eligible s)
             (map (\<lambda>d. (unat (current_task s) + d) mod unat (task_count s))
                [1..<Suc (unat (task_count s))])"
  using probes_eq[OF valid_current_lt[OF assms]]
  by (simp add: round_robin_order_def Let_def)

lemma filter_first:
  assumes "1 \<le> d" "d \<le> n" "P (g d)" "\<forall>d'. 1 \<le> d' \<and> d' < d \<longrightarrow> \<not> P (g d')"
  shows "filter P (map g [1..<Suc n]) = g d # filter P (map g [Suc d..<Suc n])"
proof -
  have "[1..<Suc n] = [1..<d] @ [d..<Suc n]"
    using assms(1,2) by (intro upt_split) auto
  moreover have "[d..<Suc n] = d # [Suc d..<Suc n]"
    using assms(2) by (intro upt_conv_Cons) auto
  ultimately have sp: "[1..<Suc n] = [1..<d] @ d # [Suc d..<Suc n]"
    by simp
  have "filter P (map g [1..<d]) = []"
    using assms(4) by (auto simp: filter_empty_conv)
  then show ?thesis using assms(3) by (simp only: sp map_append filter_append list.map filter.simps) simp
qed

lemma rr_step:
  assumes v: "valid s" and n0: "task_count s \<noteq> 0" and ne: "round_robin_order s \<noteq> []"
  shows "\<exists>s'. scheduler_yield s = Inr s' \<and> valid s' \<and> task_count s' = task_count s \<and>
           current_task s' = of_nat (hd (round_robin_order s)) \<and>
           round_robin_order s' = rotate1 (round_robin_order s)"
  using v n0
proof (cases rule: yield_cases)
  case stay
  let ?c = "unat (current_task s)"
  let ?n = "unat (task_count s)"
  let ?g = "\<lambda>d. (?c + d) mod ?n"
  let ?sv = "s\<lparr>debug_stats := (debug_stats s)
                  \<lparr>voluntary_yields := voluntary_yields (debug_stats s) + 1\<rparr>\<rparr>"
  have npos: "0 < ?n" using n0 by (simp add: unat_gt_0)
  have c_lt: "?c < ?n" using v n0 by (rule valid_current_lt)
  have sp: "[1..<Suc ?n] = [1..<?n] @ [?n]" using npos by (cases ?n) auto
  have "filter (eligible s) (map ?g [1..<?n]) = []"
    using stay(2) by (auto simp: filter_empty_conv)
  then have "round_robin_order s = filter (eligible s) [?c]"
    using c_lt by (simp add: order_probes[OF v n0] sp)
  then have o: "round_robin_order s = [?c]" using ne by (auto split: if_splits)
  have "round_robin_order ?sv = round_robin_order s"
    by (simp add: round_robin_order_def)
  then show ?thesis
    using stay(1) o v by (simp add: valid_def)
next
  case (switch d s')
  let ?c = "unat (current_task s)"
  let ?n = "unat (task_count s)"
  let ?g = "\<lambda>d. (?c + d) mod ?n"
  have npos: "0 < ?n" using n0 by (simp add: unat_gt_0)
  have v': "valid s'"
    using v switch(7,9,15) npos by (auto simp: valid_def)
  have n0': "task_count s' \<noteq> 0" using switch(7) n0 by simp
  have el: "eligible s' i = eligible s i" for i
  proof (cases "i = unat (current_task s')")
    case True
    then show ?thesis using switch(4,12,16) by (simp add: eligible_def)
  next
    case ni: False
    show ?thesis
    proof (cases "i = ?c")
      case True
      then show ?thesis using switch(13) by (auto simp: eligible_def)
    next
      case False
      then show ?thesis using switch(11) ni by (simp add: eligible_def)
    qed
  qed
  have o: "round_robin_order s = ?g d # filter (eligible s) (map ?g [Suc d..<Suc ?n])"
    unfolding order_probes[OF v n0]
    using filter_first[of d ?n "eligible s" ?g] switch(1,2,3,4) by simp
  have g': "(unat (current_task s') + e) mod ?n = ?g (d + e)" for e
    unfolding switch(16) by (simp add: mod_add_left_eq add.assoc)
  have "map (\<lambda>e. ?g (d + e)) [1..<Suc ?n] = map ?g [d + 1..<d + Suc ?n]"
    by (rule map_shift_upt[symmetric])
  also have "[d + 1..<d + Suc ?n] = [Suc d..<Suc ?n] @ [Suc ?n..<?n + Suc d]"
    using switch(2) upt_split[of "Suc d" "Suc ?n" "?n + Suc d"] by (simp add: add.commute)
  also have "map ?g ([Suc d..<Suc ?n] @ [Suc ?n..<?n + Suc d]) =
             map ?g [Suc d..<Suc ?n] @ map (\<lambda>e. ?g (?n + e)) [1..<Suc d]"
    using map_shift_upt[of ?g ?n 1 "Suc d"] by simp
  also have "map (\<lambda>e. ?g (?n + e)) [1..<Suc d] = map ?g [1..<Suc d]"
  proof -
    have "?g (?n + e) = ?g e" for e
    proof -
      have "?c + (?n + e) = ?n + (?c + e)" by simp
      then show ?thesis by (simp only: mod_add_self1)
    qed
    then show ?thesis by simp
  qed
  also have "[1..<Suc d] = [1..<d] @ [d]" using switch(1) by (cases d) auto
  finally have pr: "map (\<lambda>e. ?g (d + e)) [1..<Suc ?n] =
      map ?g [Suc d..<Suc ?n] @ map ?g [1..<d] @ [?g d]"
    by simp
  have none: "filter (eligible s) (map ?g [1..<d]) = []"
    using switch(3) by (auto simp: filter_empty_conv)
  have "round_robin_order s' =
          filter (eligible s') (map (\<lambda>e. ?g (d + e)) [1..<Suc ?n])"
    unfolding order_probes[OF v' n0'] using switch(7) g' by simp
  also have "\<dots> = filter (eligible s) (map (\<lambda>e. ?g (d + e)) [1..<Suc ?n])"
    using el by (intro filter_cong) auto
  also have "\<dots> = filter (eligible s) (map ?g [Suc d..<Suc ?n]) @ [?g d]"
    unfolding pr using none switch(4) by simp
  finally have "round_robin_order s' = rotate1 (round_robin_order s)"
    using o by simp
  then show ?thesis
    using switch(5,6,7) v' o by simp
qed

lemma yield_trace_cycle:
  assumes "valid s" "task_count s \<noteq> 0" "round_robin_order s \<noteq> []"
  shows "yield_trace j s =
           Inr (map (\<lambda>i. of_nat (round_robin_order s ! (i mod length (round_robin_order s)))) [0..<j])"
  using assms
proof (induction j arbitrary: s)
  case 0
  then show ?case by simp
next
  case (Suc j)
  let ?o = "round_robin_order s"
  let ?k = "length ?o"
  have kpos: "0 < ?k" using Suc.prems(3) by simp
  from rr_step[OF Suc.prems] obtain s' where s':
    "scheduler_yield s = Inr s'" "valid s'" "task_count s' = task_count s"
    "current_task s' = of_nat (hd ?o)" "round_robin_order s' = rotate1 ?o" by blast
  have ne': "round_robin_order s' \<noteq> []" using s'(5) Suc.prems(3) by simp
  have n0': "task_count s' \<noteq> 0" using s'(3) Suc.prems(2) by simp
  have ih: "yield_trace j s' =
      Inr (map (\<lambda>i. of_nat (rotate1 ?o ! (i mod ?k))) [0..<j])"
    using Suc.IH[OF s'(2) n0' ne'] s'(5) by simp
  have rot: "rotate1 ?o ! (i mod ?k) = ?o ! (Suc i mod ?k)" for i
    using kpos by (simp add: nth_rotate1 mod_Suc_eq)
  have hd0: "hd ?o = ?o ! (0 mod ?k)" using Suc.prems(3) by (simp add: hd_conv_nth)
  have "map (\<lambda>i. (of_nat (?o ! (i mod ?k)) :: 8 word)) [0..<Suc j] =
        of_nat (?o ! (0 mod ?k)) # map (\<lambda>i. of_nat (?o ! (Suc i mod ?k))) [0..<j]"
    by (simp only: upt_conv_Cons[OF zero_less_Suc] list.map map_Suc_upt[symmetric] map_map o_def)
  then show ?case
    using s'(1,4) ih rot hd0 by simp
qed

text \<open>
  C2. Let \<open>k\<close> tasks be Ready or Running among the registered ones, and let nothing but
  yields happen. Then \<open>k\<close> consecutive calls of \<^verbatim>\<open>scheduler_yield\<close>, from whichever task is
  current, make each of these \<open>k\<close> tasks current exactly once, in ascending id order
  starting after the caller and wrapping round to the ids up to the caller; after that
  the same cycle repeats: the \<open>j\<close>-th later yield selects the task at position \<open>j mod k\<close> of
  that order.
\<close>

theorem round_robin_fairness:
  assumes v: "valid s" and n0: "task_count s \<noteq> 0"
  shows "distinct (round_robin_order s) \<and>
         set (round_robin_order s) = {i. i < unat (task_count s) \<and> eligible s i} \<and>
         yield_trace (length (round_robin_order s)) s = Inr (map of_nat (round_robin_order s)) \<and>
         (round_robin_order s \<noteq> [] \<longrightarrow>
            (\<forall>j. yield_trace j s =
               Inr (map (\<lambda>i. of_nat (round_robin_order s ! (i mod length (round_robin_order s))))
                      [0..<j])))"
proof (intro conjI impI allI)
  have c_lt: "unat (current_task s) < unat (task_count s)" using v n0 by (rule valid_current_lt)
  show "distinct (round_robin_order s)"
    by (auto simp: round_robin_order_def Let_def)
  have "set ([unat (current_task s) + 1..<unat (task_count s)] @ [0..<unat (current_task s) + 1]) =
        {i. i < unat (task_count s)}"
    using c_lt by auto
  then show "set (round_robin_order s) = {i. i < unat (task_count s) \<and> eligible s i}"
    unfolding round_robin_order_def Let_def set_filter by blast
  show "yield_trace (length (round_robin_order s)) s = Inr (map of_nat (round_robin_order s))"
  proof (cases "round_robin_order s = []")
    case True
    then show ?thesis by simp
  next
    case False
    have "map (\<lambda>i. (of_nat (round_robin_order s ! (i mod length (round_robin_order s))) :: 8 word))
            [0..<length (round_robin_order s)] =
          map (\<lambda>i. of_nat (round_robin_order s ! i)) [0..<length (round_robin_order s)]"
      by simp
    also have "\<dots> = map of_nat (map (\<lambda>i. round_robin_order s ! i) [0..<length (round_robin_order s)])"
      by (simp add: o_def)
    also have "\<dots> = map of_nat (round_robin_order s)"
      by (simp only: map_nth)
    finally show ?thesis
      using yield_trace_cycle[OF v n0 False, of "length (round_robin_order s)"] by simp
  qed
next
  fix j assume "round_robin_order s \<noteq> []"
  then show "yield_trace j s =
               Inr (map (\<lambda>i. of_nat (round_robin_order s ! (i mod length (round_robin_order s))))
                      [0..<j])"
    using yield_trace_cycle[OF v n0] by simp
qed

theorem round_robin_fairness_witness:
  "valid three_one_suspended \<and> task_count three_one_suspended \<noteq> 0 \<and>
   round_robin_order three_one_suspended = [2, 0] \<and>
   yield_trace 2 three_one_suspended = Inr [2, 0] \<and>
   yield_trace 5 three_one_suspended = Inr [2, 0, 2, 0, 2]"
proof -
  have v: "valid three_one_suspended" by code_simp
  have n0: "task_count three_one_suspended \<noteq> 0" by code_simp
  have o: "round_robin_order three_one_suspended = [2, 0]" by code_simp
  have m: "map (\<lambda>i. (of_nat ([2, 0 :: nat] ! (i mod 2)) :: 8 word)) [0..<5] = [2, 0, 2, 0, 2]"
    by code_simp
  have l2: "length [2, 0 :: nat] = 2" by simp
  have m2: "map of_nat [2, 0 :: nat] = [2, 0 :: 8 word]" by simp
  have ne: "[2, 0 :: nat] \<noteq> []" by simp
  note t = round_robin_fairness[OF v n0, unfolded o l2 m2]
  from t have a: "yield_trace 2 three_one_suspended = Inr [2, 0]"
    by (rule conjunct1[OF conjunct2[OF conjunct2]])
  from t ne have "yield_trace 5 three_one_suspended =
      Inr (map (\<lambda>i. of_nat ([2, 0 :: nat] ! (i mod 2))) [0..<5])"
    by blast
  then have b: "yield_trace 5 three_one_suspended = Inr [2, 0, 2, 0, 2]"
    unfolding m .
  show ?thesis using v n0 o a b by blast
qed

end
